theory Spec2Isabelle
  imports Main "HOL-Library.Word"
begin

section \<open>The waveform exporter of abcd\_adr\_waveform\_exporter.cpp\<close>

text \<open>
  The exporter scans a binary stream for frames \<open>topic_s<size> <body>\<close>, decodes the
  waveform packets of every frame whose topic starts with \<open>data_abcd_waveforms\<close> and
  writes their samples as CSV rows, for one channel or for all channels.

  Conventions of the embedding:
  \<^item> a \<open>char\<close> buffer (\<open>std::vector<char>\<close>, \<open>std::string\<close>, the bytes of the input file)
    is a \<open>string\<close>; \<open>of_char\<close> reads a byte as a number between 0 and 255;
  \<^item> \<open>memcpy\<close> into an unsigned integer reads the bytes least significant first
    (the byte order of the x86-64 host the program is compiled for);
  \<^item> \<open>size_t\<close> is 64 bits wide and \<open>int\<close> 32 bits wide (LP64); \<open>uint32_t\<close>, \<open>uint16_t\<close>,
    \<open>uint8_t\<close> and \<open>uint64_t\<close> are words;
  \<^item> an uncaught C++ exception and an undefined operation (a read past the end of a
    buffer, a signed overflow) end the run abnormally: they are values of type \<open>exn\<close>;
  \<^item> console output and the clock are not modelled; memory is unbounded.
\<close>

subsection \<open>Abnormal endings\<close>

datatype exn =
    InvalidArgument   \<comment> \<open>\<open>std::invalid_argument\<close>, thrown by \<open>std::stoi\<close>\<close>
  | OutOfRange        \<comment> \<open>\<open>std::out_of_range\<close>, thrown by \<open>std::stoi\<close>\<close>
  | LengthError       \<comment> \<open>\<open>std::length_error\<close> (\<open>std::bad_alloc\<close> in older libraries), thrown by the \<open>std::vector\<close> constructor\<close>
  | OutOfBoundsRead   \<comment> \<open>undefined: \<open>memcpy\<close> from beyond the end of the buffer\<close>
  | SignedOverflow    \<comment> \<open>undefined: \<open>++\<close> on an \<open>int\<close> that holds \<open>INT_MAX\<close>\<close>

definition INT_MAX :: int where
  "INT_MAX = 2147483647"

definition INT_MIN :: int where
  "INT_MIN = - 2147483648"

text \<open>Addition of two \<open>size_t\<close> values, as the machine computes it.\<close>

definition size_t_add :: "nat \<Rightarrow> nat \<Rightarrow> nat" where
  "size_t_add a b = (a + b) mod 2 ^ 64"

subsection \<open>Bytes and unsigned integers\<close>

text \<open>The \<open>n\<close> bytes of \<open>buffer\<close> that start at \<open>pos\<close>.\<close>

definition bytes_at :: "string \<Rightarrow> nat \<Rightarrow> nat \<Rightarrow> string" where
  "bytes_at buffer pos n = take n (drop pos buffer)"

text \<open>The value \<open>memcpy\<close> leaves in an unsigned integer: little endian.\<close>

fun le_nat :: "string \<Rightarrow> nat" where
  "le_nat [] = 0"
| "le_nat (c # cs) = of_char c + 256 * le_nat cs"

subsection \<open>WaveformPacket and read\_waveform\_packet (lines 39--73)\<close>

record WaveformPacket =
  timestamp :: "64 word"
  channel :: "8 word"
  sample_count :: "32 word"
  gates_count :: "8 word"
  samples :: "16 word list"

text \<open>
  \<open>WaveformPacket pkt;\<close> (lines 140 and 213): an empty sample vector; the scalar members
  are uninitialised in the source and are never read before \<open>read_waveform_packet\<close>
  has assigned them, so that any value stands for them.
\<close>

definition fresh_packet :: WaveformPacket where
  "fresh_packet = \<lparr>timestamp = 0, channel = 0, sample_count = 0, gates_count = 0, samples = []\<rparr>"

text \<open>
  Lines 62--66: \<open>n\<close> more samples are read from \<open>pos\<close>, two bytes each. Each \<open>memcpy\<close>
  whose two source bytes are not both inside the buffer is a read past its end. The result
  is the position after the last sample and the samples in the order read.
\<close>

fun read_samples :: "string \<Rightarrow> nat \<Rightarrow> nat \<Rightarrow> exn + nat \<times> 16 word list" where
  "read_samples buffer pos 0 = Inr (pos, [])"
| "read_samples buffer pos (Suc n) =
     (if length buffer < pos + 2 then Inl OutOfBoundsRead
      else case read_samples buffer (pos + 2) n of
             Inl e \<Rightarrow> Inl e
           | Inr (pos', rest) \<Rightarrow> Inr (pos', of_nat (le_nat (bytes_at buffer pos 2)) # rest))"

text \<open>
  The function returns \<open>Inr (ok, pos, packet)\<close>: its \<open>bool\<close> result and the two reference
  parameters as they are on return. Line 51 adds in \<open>size_t\<close>; line 59 multiplies in
  \<open>uint32_t\<close> (the operands are \<open>uint32_t\<close> and \<open>int\<close>) and then adds in \<open>size_t\<close>. The
  advances of \<open>pos\<close> follow reads inside the buffer and cannot wrap; the four header reads
  of lines 54--57 lie inside the buffer exactly when \<open>pos + 14\<close> does not exceed its size.
\<close>

definition read_waveform_packet ::
  "string \<Rightarrow> nat \<Rightarrow> WaveformPacket \<Rightarrow> exn + bool \<times> nat \<times> WaveformPacket" where
  "read_waveform_packet buffer pos packet =
     (if length buffer < size_t_add pos 14 then Inr (False, pos, packet)
      else if length buffer < pos + 14 then Inl OutOfBoundsRead
      else
        let packet = packet\<lparr>timestamp := of_nat (le_nat (bytes_at buffer pos 8))\<rparr>;
            pos = pos + 8;
            packet = packet\<lparr>channel := of_nat (le_nat (bytes_at buffer pos 1))\<rparr>;
            pos = pos + 1;
            packet = packet\<lparr>sample_count := of_nat (le_nat (bytes_at buffer pos 4))\<rparr>;
            pos = pos + 4;
            packet = packet\<lparr>gates_count := of_nat (le_nat (bytes_at buffer pos 1))\<rparr>;
            pos = pos + 1
        in
          if length buffer < size_t_add pos (unat (sample_count packet * 2))
          then Inr (False, pos, packet)
          else
            (case read_samples buffer pos (unat (sample_count packet)) of
               Inl e \<Rightarrow> Inl e
             | Inr (pos', raw) \<Rightarrow>
                 Inr (True, pos',
                      packet\<lparr>samples :=
                        (if 4 \<le> length raw then take (length raw - 4) raw else raw)\<rparr>)))"

text \<open>The raw sample number \<open>i\<close> of the packet that starts at \<open>pos\<close>, as it is on the wire.\<close>

definition raw_sample :: "string \<Rightarrow> nat \<Rightarrow> nat \<Rightarrow> 16 word" where
  "raw_sample buffer pos i = of_nat (le_nat (bytes_at buffer (pos + 14 + 2 * i) 2))"

subsection \<open>The library functions the scan uses\<close>

text \<open>\<open>s.find(pat) == 0\<close>: the first occurrence of \<open>pat\<close> in \<open>s\<close> is at index 0.\<close>

definition starts_with :: "string \<Rightarrow> string \<Rightarrow> bool" where
  "starts_with s pat = (take (length pat) s = pat)"

text \<open>\<open>s.find(pat)\<close>: the least index at which \<open>pat\<close> occurs, \<open>None\<close> for \<open>npos\<close>.\<close>

fun find_from :: "string \<Rightarrow> string \<Rightarrow> nat \<Rightarrow> nat option" where
  "find_from [] pat i = (if pat = [] then Some i else None)"
| "find_from (c # cs) pat i =
     (if starts_with (c # cs) pat then Some i else find_from cs pat (Suc i))"

definition find_str :: "string \<Rightarrow> string \<Rightarrow> nat option" where
  "find_str s pat = find_from s pat 0"

text \<open>\<open>s.rfind(pat)\<close>: the greatest index at which \<open>pat\<close> occurs, \<open>None\<close> for \<open>npos\<close>.\<close>

fun rfind_from :: "string \<Rightarrow> string \<Rightarrow> nat \<Rightarrow> nat option" where
  "rfind_from s pat 0 = (if starts_with s pat then Some 0 else None)"
| "rfind_from s pat (Suc i) =
     (if starts_with (drop (Suc i) s) pat then Some (Suc i) else rfind_from s pat i)"

definition rfind :: "string \<Rightarrow> string \<Rightarrow> nat option" where
  "rfind s pat = (if length s < length pat then None else rfind_from s pat (length s - length pat))"

text \<open>
  \<open>std::stoi(s)\<close>, base 10, as \<open>strtol\<close> reads it: white space is skipped, then an optional
  sign, then the longest run of decimal digits; what follows the digits is ignored. No
  digit: \<open>std::invalid_argument\<close>. A value outside \<open>int\<close>: \<open>std::out_of_range\<close>.
\<close>

definition isspace :: "char \<Rightarrow> bool" where
  "isspace c = (c = CHR '' '' \<or> (9 :: nat) \<le> of_char c \<and> (of_char c :: nat) \<le> 13)"

definition isdigit :: "char \<Rightarrow> bool" where
  "isdigit c = ((48 :: nat) \<le> of_char c \<and> (of_char c :: nat) \<le> 57)"

definition digits_value :: "string \<Rightarrow> int" where
  "digits_value ds = foldl (\<lambda>a c. 10 * a + (int (of_char c) - 48)) 0 ds"

definition stoi :: "string \<Rightarrow> exn + int" where
  "stoi s =
     (let s1 = dropWhile isspace s;
          neg = (s1 \<noteq> [] \<and> hd s1 = CHR ''-'');
          s2 = (if s1 \<noteq> [] \<and> (hd s1 = CHR ''-'' \<or> hd s1 = CHR ''+'') then tl s1 else s1);
          ds = takeWhile isdigit s2;
          v = (if neg then - digits_value ds else digits_value ds)
      in if ds = [] then Inl InvalidArgument
         else if v < INT_MIN \<or> INT_MAX < v then Inl OutOfRange
         else Inr v)"

text \<open>Decimal text: \<open>out << n\<close> for an unsigned value and \<open>std::to_string(i)\<close> for an \<open>int\<close>.\<close>

fun dec_nat :: "nat \<Rightarrow> string" where
  "dec_nat n =
     (if n < 10 then [''0123456789'' ! n]
      else dec_nat (n div 10) @ [''0123456789'' ! (n mod 10)])"

declare dec_nat.simps [simp del]

definition to_string :: "int \<Rightarrow> string" where
  "to_string i = (if i < 0 then CHR ''-'' # dec_nat (nat (- i)) else dec_nat (nat i))"

subsection \<open>Output files and write\_samples\_csv (lines 75--83)\<close>

text \<open>
  A \<open>std::ofstream\<close>: the path it was opened on, whether the open succeeded, and the rows
  written so far, one per call of \<open>write_samples_csv\<close>, each with its newline. A stream
  that is not open drops what is written to it. The rows are those handed to the stream:
  a run that ends abnormally need not have flushed them to the file.
\<close>

record ofstream =
  path :: string
  is_open :: bool
  rows :: "string list"

definition closed_ofstream :: ofstream where
  "closed_ofstream = \<lparr>path = [], is_open = False, rows = []\<rparr>"

text \<open>\<open>creatable\<close> tells for which paths the file system lets a file be created.\<close>

definition open_ofstream :: "(string \<Rightarrow> bool) \<Rightarrow> string \<Rightarrow> ofstream" where
  "open_ofstream creatable name =
     (if creatable name then \<lparr>path = name, is_open = True, rows = []\<rparr>
      else \<lparr>path = name, is_open = False, rows = []\<rparr>)"

fun csv_text :: "16 word list \<Rightarrow> string" where
  "csv_text [] = []"
| "csv_text [x] = dec_nat (unat x)"
| "csv_text (x # y # ys) = dec_nat (unat x) @ '','' @ csv_text (y # ys)"

definition csv_row :: "16 word list \<Rightarrow> string" where
  "csv_row smp = csv_text smp @ [CHR 0x0A]"

definition write_samples_csv :: "ofstream \<Rightarrow> 16 word list \<Rightarrow> ofstream" where
  "write_samples_csv out smp =
     (if is_open out then out\<lparr>rows := rows out @ [csv_row smp]\<rparr> else out)"

text \<open>Lines 101--102, 183 and 222: the name of the CSV file of channel \<open>ch\<close>.\<close>

definition base_name :: "string \<Rightarrow> string" where
  "base_name input_file =
     (case find_str input_file ''.adr'' of None \<Rightarrow> input_file | Some i \<Rightarrow> take i input_file)"

definition csv_name :: "string \<Rightarrow> int \<Rightarrow> string" where
  "csv_name input_file ch = base_name input_file @ ''_wf_ch'' @ to_string ch @ ''.csv''"

subsection \<open>The frame scan and the packet loop (lines 113--158 and 187--236)\<close>

text \<open>
  The two export functions run the same two nested loops and differ in what they do with
  a decoded packet. That part is the handler: it takes the packet and the state of the
  export and returns the new state and how control leaves it: on to the next iteration
  (also by \<open>continue\<close>), to the label \<open>done\<close>, or abnormally.
\<close>

datatype flow = Next | GotoDone | Throw exn

type_synonym 's handler = "WaveformPacket \<Rightarrow> 's \<Rightarrow> 's \<times> flow"

lemma read_samples_pos:
  "read_samples buffer pos n = Inr (pos', raw) \<Longrightarrow> pos' = pos + 2 * n"
proof (induction n arbitrary: pos pos' raw)
  case 0
  then show ?case by simp
next
  case (Suc n)
  from Suc.prems obtain rest where "read_samples buffer (pos + 2) n = Inr (pos', rest)"
    by (auto split: if_splits sum.splits)
  from Suc.IH [OF this] show ?case by simp
qed

lemma read_waveform_packet_advances:
  "read_waveform_packet buffer pos packet = Inr (True, pos', packet') \<Longrightarrow> pos < pos'"
  by (auto simp: read_waveform_packet_def Let_def split: if_splits sum.splits
      dest!: read_samples_pos)

text \<open>
  Lines 138--154 and 211--232: the loop over the packets of one body. The result is the
  state, how the loop was left (\<open>Next\<close>: the body is exhausted or a packet was rejected)
  and the value of \<open>pos\<close> then.
\<close>

function waveform_loop :: "'s handler \<Rightarrow> string \<Rightarrow> nat \<Rightarrow> 's \<Rightarrow> 's \<times> flow \<times> nat" where
  "waveform_loop h buffer pos st =
     (if pos < length buffer then
        (case read_waveform_packet buffer pos fresh_packet of
           Inl e \<Rightarrow> (st, Throw e, pos)
         | Inr (ok, pos', pkt) \<Rightarrow>
             if \<not> ok then (st, Next, pos')
             else (case h pkt st of
                     (st', fl) \<Rightarrow>
                       if fl = Next then waveform_loop h buffer pos' st'
                       else (st', fl, pos')))
      else (st, Next, pos))"
  by pat_completeness auto
termination
  by (relation "measure (\<lambda>(h, buffer, pos, st). length buffer - pos)")
     (auto dest: read_waveform_packet_advances)

declare waveform_loop.simps [simp del]

text \<open>
  Lines 117--158 and 190--236: the scan of the input, \<open>input\<close> being the bytes not read
  yet. A failed \<open>in.read\<close> leaves the stream failed, so that the next \<open>in.get\<close> ends the
  loop. The vector constructor converts a negative \<open>msg_size\<close> to a size above
  \<open>max_size()\<close> and throws.
\<close>

function scan :: "'s handler \<Rightarrow> string \<Rightarrow> string \<Rightarrow> 's \<Rightarrow> 's \<times> flow" where
  "scan h [] topic st = (st, Next)"
| "scan h (c # input) topic st =
     (if c \<noteq> CHR '' '' then scan h input (topic @ [c]) st
      else
        (case rfind topic ''_s'' of
           None \<Rightarrow> scan h input [] st
         | Some size_pos \<Rightarrow>
             (case stoi (drop (size_pos + 2) topic) of
                Inl e \<Rightarrow> (st, Throw e)
              | Inr msg_size \<Rightarrow>
                  if msg_size < 0 then (st, Throw LengthError)
                  else if length input < nat msg_size then (st, Next)
                  else if starts_with topic ''data_abcd_waveforms'' then
                    (case waveform_loop h (take (nat msg_size) input) 0 st of
                       (st', fl, pos) \<Rightarrow>
                         if fl = Next then scan h (drop (nat msg_size) input) [] st'
                         else (st', fl))
                  else scan h (drop (nat msg_size) input) [] st)))"
  by pat_completeness auto
termination
  by (relation "measure (\<lambda>(h, input, topic, st). length input)") auto

declare scan.simps(2) [simp del]

subsection \<open>export\_single\_channel (lines 89--165)\<close>

record single_state =
  out :: ofstream
  exported :: int

text \<open>Lines 144--153. \<open>pkt.channel\<close> is promoted to \<open>int\<close> for the comparison.\<close>

definition single_packet :: "int \<Rightarrow> int \<Rightarrow> single_state handler" where
  "single_packet channel_id max_waveforms pkt st =
     (if uint (channel pkt) = channel_id then
        let st = st\<lparr>out := write_samples_csv (out st) (samples pkt)\<rparr> in
        if exported st = INT_MAX then (st, Throw SignedOverflow)
        else
          let st = st\<lparr>exported := exported st + 1\<rparr> in
          if 0 < max_waveforms \<and> max_waveforms \<le> exported st then (st, GotoDone)
          else (st, Next)
      else (st, Next))"

text \<open>
  The result of a run: the input could not be opened, the output could not be created, or
  the scan ran and left this state in this way (\<open>Next\<close>: the scan reached the end of the
  stream). \<open>files\<close> gives the contents of the files that can be opened for reading.
\<close>

datatype 's run = CannotOpen | CannotCreate | Ran 's flow

definition export_single_channel ::
  "(string \<Rightarrow> string option) \<Rightarrow> (string \<Rightarrow> bool) \<Rightarrow> string \<Rightarrow> int \<Rightarrow> int \<Rightarrow> single_state run" where
  "export_single_channel files creatable input_file channel_id max_waveforms =
     (case files input_file of
        None \<Rightarrow> CannotOpen
      | Some input \<Rightarrow>
          let out = open_ofstream creatable (csv_name input_file channel_id) in
          if \<not> is_open out then CannotCreate
          else
            (case scan (single_packet channel_id max_waveforms) input []
                    \<lparr>out = out, exported = 0\<rparr> of
               (st, fl) \<Rightarrow> Ran st fl))"

subsection \<open>export\_all\_channels (lines 171--246)\<close>

record all_state =
  outputs :: "int \<Rightarrow> ofstream option"
  counts :: "int \<Rightarrow> int option"

text \<open>
  Lines 217--231. \<open>m[k]\<close> on a \<open>std::map\<close> inserts a value-initialised entry when the key
  is absent: a stream that is not open, the count 0.
\<close>

definition all_packet :: "(string \<Rightarrow> bool) \<Rightarrow> string \<Rightarrow> int \<Rightarrow> int \<Rightarrow> all_state handler" where
  "all_packet creatable input_file max_per_channel exclude_channel pkt st =
     (let ch = uint (channel pkt) in
      if ch = exclude_channel then (st, Next)
      else
        let st = (if outputs st ch = None
                  then st\<lparr>outputs := (outputs st)(ch \<mapsto> open_ofstream creatable (csv_name input_file ch)),
                          counts := (counts st)(ch \<mapsto> 0)\<rparr>
                  else st);
            c = (case counts st ch of None \<Rightarrow> 0 | Some n \<Rightarrow> n)
        in
          if max_per_channel \<le> 0 \<or> c < max_per_channel then
            let f = (case outputs st ch of None \<Rightarrow> closed_ofstream | Some f \<Rightarrow> f);
                st = st\<lparr>outputs := (outputs st)(ch \<mapsto> write_samples_csv f (samples pkt))\<rparr>
            in if c = INT_MAX then (st\<lparr>counts := (counts st)(ch \<mapsto> c)\<rparr>, Throw SignedOverflow)
               else (st\<lparr>counts := (counts st)(ch \<mapsto> c + 1)\<rparr>, Next)
          else (st\<lparr>counts := (counts st)(ch \<mapsto> c)\<rparr>, Next))"

definition export_all_channels ::
  "(string \<Rightarrow> string option) \<Rightarrow> (string \<Rightarrow> bool) \<Rightarrow> string \<Rightarrow> int \<Rightarrow> int \<Rightarrow> all_state run" where
  "export_all_channels files creatable input_file max_per_channel exclude_channel =
     (case files input_file of
        None \<Rightarrow> CannotOpen
      | Some input \<Rightarrow>
          (case scan (all_packet creatable input_file max_per_channel exclude_channel) input []
                  \<lparr>outputs = Map.empty, counts = Map.empty\<rparr> of
             (st, fl) \<Rightarrow> Ran st fl))"

text \<open>
  The stream a packet of channel \<open>ch\<close> is written to in state \<open>st\<close> (the one in the map,
  or the one line 223 opens when the map has none), and the count line 228 compares.
\<close>

definition sink_of :: "(string \<Rightarrow> bool) \<Rightarrow> string \<Rightarrow> all_state \<Rightarrow> int \<Rightarrow> ofstream" where
  "sink_of creatable input_file st ch =
     (case outputs st ch of
        None \<Rightarrow> open_ofstream creatable (csv_name input_file ch)
      | Some f \<Rightarrow> f)"

definition count_of :: "all_state \<Rightarrow> int \<Rightarrow> int" where
  "count_of st ch =
     (case outputs st ch of
        None \<Rightarrow> 0
      | Some f \<Rightarrow> (case counts st ch of None \<Rightarrow> 0 | Some n \<Rightarrow> n))"

subsection \<open>The packets of a stream\<close>

text \<open>
  The handler that only records the packet it is given, in a list. With it the two loops
  yield the packets they decode from a stream when no handler stops them, in the order
  they are decoded, and the way the scan ends then: at the end of the stream or abnormally.
\<close>

definition collect :: "WaveformPacket list handler" where
  "collect pkt acc = (acc @ [pkt], Next)"

definition stream_packets :: "string \<Rightarrow> WaveformPacket list" where
  "stream_packets input = fst (scan collect input [] [])"

definition stream_end :: "string \<Rightarrow> flow" where
  "stream_end input = snd (scan collect input [] [])"

text \<open>A handler applied to a list of packets in turn, until it leaves otherwise than by \<open>Next\<close>.\<close>

fun run_packets :: "'s handler \<Rightarrow> WaveformPacket list \<Rightarrow> 's \<Rightarrow> 's \<times> flow" where
  "run_packets h [] st = (st, Next)"
| "run_packets h (p # ps) st =
     (case h p st of (st', fl) \<Rightarrow> if fl = Next then run_packets h ps st' else (st', fl))"

text \<open>A run left by \<open>r\<close>, followed, if it was left by \<open>Next\<close>, by what is left by \<open>fl\<close>.\<close>

definition and_then :: "'s \<times> flow \<Rightarrow> flow \<Rightarrow> 's \<times> flow" where
  "and_then r fl = (if snd r = Next then (fst r, fl) else r)"

text \<open>The packets of a list whose channel is \<open>channel_id\<close>.\<close>

definition matching_packets :: "int \<Rightarrow> WaveformPacket list \<Rightarrow> WaveformPacket list" where
  "matching_packets channel_id pkts = filter (\<lambda>p. uint (channel p) = channel_id) pkts"

subsection \<open>Packets on the wire\<close>

text \<open>
  The wire format in the words of the specification: a packet is 8 bytes of time stamp, 1
  byte of channel, 4 bytes of \<open>sample_count\<close>, 1 byte of \<open>gates_count\<close> and
  \<open>sample_count\<close> samples of 2 bytes. A byte string is a complete, well-formed packet
  when it is exactly as long as its own \<open>sample_count\<close> says; the packet it stands for
  has these fields, and its samples without the last four when there are four or more.
\<close>

definition sample_count_of :: "string \<Rightarrow> nat" where
  "sample_count_of c = le_nat (bytes_at c 9 4)"

definition complete_packet :: "string \<Rightarrow> bool" where
  "complete_packet c = (length c = 14 + 2 * sample_count_of c)"

definition wire_packet :: "string \<Rightarrow> WaveformPacket" where
  "wire_packet c =
     \<lparr>timestamp = of_nat (le_nat (bytes_at c 0 8)),
      channel = of_nat (le_nat (bytes_at c 8 1)),
      sample_count = of_nat (sample_count_of c),
      gates_count = of_nat (le_nat (bytes_at c 13 1)),
      samples = map (raw_sample c 0)
                  [0..<(if 4 \<le> sample_count_of c then sample_count_of c - 4
                        else sample_count_of c)]\<rparr>"

subsection \<open>Concrete inputs\<close>

text \<open>
  Packet A of the specification's round trip: channel 2, time stamp 0, six samples 10, 20,
  30, 40, 50, 60. Packet B: channel 2, two samples 5, 6.
\<close>

definition packet_A :: string where
  "packet_A =
     [CHR 0x00, CHR 0x00, CHR 0x00, CHR 0x00, CHR 0x00, CHR 0x00, CHR 0x00, CHR 0x00,
      CHR 0x02, CHR 0x06, CHR 0x00, CHR 0x00, CHR 0x00, CHR 0x00,
      CHR 0x0A, CHR 0x00, CHR 0x14, CHR 0x00, CHR 0x1E, CHR 0x00,
      CHR 0x28, CHR 0x00, CHR 0x32, CHR 0x00, CHR 0x3C, CHR 0x00]"

definition packet_B :: string where
  "packet_B =
     [CHR 0x00, CHR 0x00, CHR 0x00, CHR 0x00, CHR 0x00, CHR 0x00, CHR 0x00, CHR 0x00,
      CHR 0x02, CHR 0x02, CHR 0x00, CHR 0x00, CHR 0x00, CHR 0x00,
      CHR 0x05, CHR 0x00, CHR 0x06, CHR 0x00]"

text \<open>A header that announces one sample, with no sample behind it.\<close>

definition header_only :: string where
  "header_only =
     [CHR 0x00, CHR 0x00, CHR 0x00, CHR 0x00, CHR 0x00, CHR 0x00, CHR 0x00, CHR 0x00,
      CHR 0x02, CHR 0x01, CHR 0x00, CHR 0x00, CHR 0x00, CHR 0x00]"

text \<open>A header that announces \<open>2^31\<close> samples (\<open>00 00 00 80\<close>), with no sample behind it.\<close>

definition huge_count :: string where
  "huge_count =
     [CHR 0x00, CHR 0x00, CHR 0x00, CHR 0x00, CHR 0x00, CHR 0x00, CHR 0x00, CHR 0x00,
      CHR 0x02, CHR 0x00, CHR 0x00, CHR 0x00, CHR 0x80, CHR 0x00]"

text \<open>A frame whose body is packet A followed by packet B, and what they decode to.\<close>

definition frame_AB :: string where
  "frame_AB = ''data_abcd_waveforms_v0_s44 '' @ packet_A @ packet_B"

definition decoded_A :: WaveformPacket where
  "decoded_A = \<lparr>timestamp = 0, channel = 2, sample_count = 6, gates_count = 0, samples = [10, 20]\<rparr>"

definition decoded_B :: WaveformPacket where
  "decoded_B = \<lparr>timestamp = 0, channel = 2, sample_count = 2, gates_count = 0, samples = [5, 6]\<rparr>"

text \<open>Packet C: channel 5, one sample 7. A frame with the packets A, B and C.\<close>

definition packet_C :: string where
  "packet_C =
     [CHR 0x00, CHR 0x00, CHR 0x00, CHR 0x00, CHR 0x00, CHR 0x00, CHR 0x00, CHR 0x00,
      CHR 0x05, CHR 0x01, CHR 0x00, CHR 0x00, CHR 0x00, CHR 0x00,
      CHR 0x07, CHR 0x00]"

definition decoded_C :: WaveformPacket where
  "decoded_C = \<lparr>timestamp = 0, channel = 5, sample_count = 1, gates_count = 0, samples = [7]\<rparr>"

definition frame_ABC :: string where
  "frame_ABC = ''data_abcd_waveforms_v0_s60 '' @ packet_A @ packet_B @ packet_C"

text \<open>The header of a frame that announces a body of 44 bytes.\<close>

definition header_44 :: string where
  "header_44 = ''data_abcd_waveforms_v0_s44''"

section \<open>The packet decoder\<close>

lemma read_samples_unfold:
  "read_samples buffer pos n =
     (if n = 0 then Inr (pos, [])
      else if length buffer < pos + 2 then Inl OutOfBoundsRead
      else case read_samples buffer (pos + 2) (n - 1) of
             Inl e \<Rightarrow> Inl e
           | Inr (pos', rest) \<Rightarrow> Inr (pos', of_nat (le_nat (bytes_at buffer pos 2)) # rest))"
  by (cases n) simp_all

lemmas decode_simps =
  read_waveform_packet_def size_t_add_def bytes_at_def fresh_packet_def Let_def
  read_samples_unfold

lemma read_samples_raw:
  "read_samples buffer pos n = Inr (pos', raw) \<Longrightarrow>
     raw = map (\<lambda>i. of_nat (le_nat (bytes_at buffer (pos + 2 * i) 2))) [0..<n]"
proof (induction n arbitrary: pos pos' raw)
  case 0
  then show ?case by simp
next
  case (Suc n)
  from Suc.prems obtain rest where
    rest: "read_samples buffer (pos + 2) n = Inr (pos', rest)" and
    raw: "raw = of_nat (le_nat (bytes_at buffer pos 2)) # rest"
    by (auto split: if_splits sum.splits)
  from Suc.IH [OF rest] raw show ?case
    by (simp add: map_upt_Suc del: upt_Suc)
qed

lemma read_samples_ok:
  "pos + 2 * n \<le> length buffer \<Longrightarrow>
     read_samples buffer pos n =
       Inr (pos + 2 * n, map (\<lambda>i. of_nat (le_nat (bytes_at buffer (pos + 2 * i) 2))) [0..<n])"
proof (induction n arbitrary: pos)
  case 0
  then show ?case by simp
next
  case (Suc n)
  from Suc.prems have "pos + 2 + 2 * n \<le> length buffer" by simp
  from Suc.IH [OF this] Suc.prems show ?case
    by (simp add: map_upt_Suc del: upt_Suc)
qed

lemma read_waveform_packet_True:
  assumes "read_waveform_packet buffer pos packet = Inr (True, pos', packet')"
  shows "sample_count packet' = of_nat (le_nat (bytes_at buffer (pos + 9) 4))"
    and "\<exists>raw. read_samples buffer (pos + 14) (unat (sample_count packet')) = Inr (pos', raw) \<and>
           samples packet' = (if 4 \<le> length raw then take (length raw - 4) raw else raw)"
  using assms
  by (auto simp: read_waveform_packet_def Let_def ac_simps split: if_splits sum.splits)

lemma read_packet_A:
  "read_waveform_packet packet_A 0 fresh_packet =
     Inr (True, 26,
          \<lparr>timestamp = 0, channel = 2, sample_count = 6, gates_count = 0, samples = [10, 20]\<rparr>)"
  by (simp add: packet_A_def decode_simps)

lemma read_packet_B:
  "read_waveform_packet packet_B 0 fresh_packet =
     Inr (True, 18,
          \<lparr>timestamp = 0, channel = 2, sample_count = 2, gates_count = 0, samples = [5, 6]\<rparr>)"
  by (simp add: packet_B_def decode_simps)

lemma read_waveform_packet_alt:
  fixes buffer :: string and pos :: nat and packet :: WaveformPacket
  defines "sc \<equiv> (of_nat (le_nat (bytes_at buffer (pos + 9) 4)) :: 32 word)"
  defines "hdr \<equiv> packet\<lparr>timestamp := of_nat (le_nat (bytes_at buffer pos 8)),
                         channel := of_nat (le_nat (bytes_at buffer (pos + 8) 1)),
                         sample_count := sc,
                         gates_count := of_nat (le_nat (bytes_at buffer (pos + 13) 1))\<rparr>"
  shows "read_waveform_packet buffer pos packet =
     (if length buffer < size_t_add pos 14 then Inr (False, pos, packet)
      else if length buffer < pos + 14 then Inl OutOfBoundsRead
      else if length buffer < size_t_add (pos + 14) (unat (sc * 2)) then Inr (False, pos + 14, hdr)
      else (case read_samples buffer (pos + 14) (unat sc) of
              Inl e \<Rightarrow> Inl e
            | Inr (pos', raw) \<Rightarrow>
                Inr (True, pos',
                     hdr\<lparr>samples := (if 4 \<le> length raw then take (length raw - 4) raw else raw)\<rparr>)))"
  unfolding sc_def hdr_def
  by (auto simp: read_waveform_packet_def Let_def ac_simps split: sum.splits)

text \<open>
  The check of line 59 does its work as long as the product does not wrap: for a count
  below \<open>2^31\<close>, on a buffer as a vector can hold it, no read goes past the end.
\<close>

lemma small_count_stays_in_bounds:
  assumes "length buffer < 2 ^ 63"
    and "pos \<le> length buffer"
    and "le_nat (bytes_at buffer (pos + 9) 4) < 2 ^ 31"
  shows "read_waveform_packet buffer pos packet \<noteq> Inl OutOfBoundsRead"
proof -
  let ?n = "le_nat (bytes_at buffer (pos + 9) 4)"
  let ?w = "of_nat ?n :: 32 word"
  have sc: "unat ?w = ?n"
    using assms(3) by (intro of_nat_inverse) simp_all
  have "unat ?w * unat (2 :: 32 word) < 2 ^ LENGTH(32)"
    using assms(3) sc by simp
  then have "unat (?w * 2) = unat ?w * unat (2 :: 32 word)"
    by (rule unat_mult_lem [THEN iffD1])
  then have m: "unat (?w * 2) = 2 * ?n"
    using sc by simp
  have a1: "size_t_add pos 14 = pos + 14"
    using assms(1,2) by (simp add: size_t_add_def)
  show ?thesis
  proof (cases "length buffer < pos + 14")
    case True
    then have "length buffer < size_t_add pos 14"
      unfolding a1 .
    then show ?thesis
      by (simp add: read_waveform_packet_def)
  next
    case False
    then have h: "pos + 14 \<le> length buffer" by simp
    have a2: "size_t_add (pos + 14) (unat (?w * 2)) = pos + 14 + 2 * ?n"
      unfolding m using assms(1,3) h by (simp add: size_t_add_def)
    have g1: "\<not> length buffer < size_t_add pos 14"
      using False unfolding a1 .
    show ?thesis
    proof (cases "length buffer < pos + 14 + 2 * ?n")
      case True
      then have g2: "length buffer < size_t_add (pos + 14) (unat (?w * 2))"
        unfolding a2 .
      show ?thesis
        unfolding read_waveform_packet_alt
        by (simp only: g1 False g2 if_False if_True) simp
    next
      case nt: False
      then have g2: "\<not> length buffer < size_t_add (pos + 14) (unat (?w * 2))"
        unfolding a2 .
      from nt have "pos + 14 + 2 * ?n \<le> length buffer" by simp
      from read_samples_ok [OF this]
      have rs: "read_samples buffer (pos + 14) (unat ?w) =
          Inr (pos + 14 + 2 * ?n,
               map (\<lambda>i. of_nat (le_nat (bytes_at buffer (pos + 14 + 2 * i) 2))) [0..<?n])"
        unfolding sc .
      show ?thesis
        unfolding read_waveform_packet_alt
        by (simp only: g1 False g2 rs if_False sum.case prod.case) simp
    qed
  qed
qed

text \<open>
  Claim C2. The claim: \<open>read_waveform_packet\<close> rejects every packet whose buffer holds
  fewer than \<open>14 + 2 * sample_count\<close> bytes from \<open>pos\<close>, also for a \<open>sample_count\<close> of
  \<open>2^31\<close> or more, and no sample read goes past the end of the buffer. The code does not:
  line 59 computes \<open>sample_count * 2\<close> in 32 bits. On a buffer of 14 bytes whose header
  announces \<open>2^31\<close> samples the product is 0, the check passes, and the first sample is
  read from beyond the end of the buffer.
\<close>

theorem sample_count_overflow_reads_past_end:
  "read_waveform_packet huge_count 0 fresh_packet = Inl OutOfBoundsRead"
  by (simp add: huge_count_def decode_simps)

text \<open>
  Claim C3. For every successfully decoded packet, \<open>sample_count\<close> being the count read
  from the header: if \<open>sample_count \<ge> 4\<close> the stored samples are the first
  \<open>sample_count - 4\<close> raw samples in wire order (hence \<open>sample_count - 4\<close> of them); if
  \<open>sample_count < 4\<close> they are all \<open>sample_count\<close> raw samples.
\<close>

theorem trailing_samples_trimmed:
  "read_waveform_packet buffer pos packet = Inr (True, pos', packet') \<Longrightarrow>
     sample_count packet' = of_nat (le_nat (bytes_at buffer (pos + 9) 4)) \<and>
     length (samples packet') =
       (if 4 \<le> unat (sample_count packet') then unat (sample_count packet') - 4
        else unat (sample_count packet')) \<and>
     samples packet' =
       map (raw_sample buffer pos)
         [0..<(if 4 \<le> unat (sample_count packet') then unat (sample_count packet') - 4
               else unat (sample_count packet'))]"
proof -
  assume a: "read_waveform_packet buffer pos packet = Inr (True, pos', packet')"
  let ?n = "unat (sample_count packet')"
  from read_waveform_packet_True(2) [OF a] obtain raw where
    rs: "read_samples buffer (pos + 14) ?n = Inr (pos', raw)" and
    smp: "samples packet' = (if 4 \<le> length raw then take (length raw - 4) raw else raw)"
    by blast
  from read_samples_raw [OF rs] have raw: "raw = map (raw_sample buffer pos) [0..<?n]"
    by (simp add: raw_sample_def)
  then have len: "length raw = ?n" by simp
  have s: "samples packet' = map (raw_sample buffer pos) [0..<(if 4 \<le> ?n then ?n - 4 else ?n)]"
    unfolding smp len by (simp add: raw take_map)
  then have "length (samples packet') = (if 4 \<le> ?n then ?n - 4 else ?n)"
    by simp
  with s read_waveform_packet_True(1) [OF a] show ?thesis by simp
qed

theorem trailing_samples_trimmed_witness:
  "read_waveform_packet packet_A 0 fresh_packet =
     Inr (True, 26,
          \<lparr>timestamp = 0, channel = 2, sample_count = 6, gates_count = 0, samples = [10, 20]\<rparr>) \<and>
   [10, 20] = map (raw_sample packet_A 0) [0..<2] \<and>
   read_waveform_packet packet_B 0 fresh_packet =
     Inr (True, 18,
          \<lparr>timestamp = 0, channel = 2, sample_count = 2, gates_count = 0, samples = [5, 6]\<rparr>) \<and>
   [5, 6] = map (raw_sample packet_B 0) [0..<2]"
  using trailing_samples_trimmed [OF read_packet_A] trailing_samples_trimmed [OF read_packet_B]
    read_packet_A read_packet_B
  by simp

text \<open>
  Claim C7, as stated: whenever \<open>read_waveform_packet\<close> returns false, \<open>pos\<close> on exit
  equals \<open>pos\<close> on entry. It fails when the sample region is too short: lines 54--57 have
  advanced \<open>pos\<close> past the header before line 59 rejects the packet.
\<close>

theorem rejected_packet_moves_pos:
  "read_waveform_packet header_only 0 fresh_packet =
     Inr (False, 14,
          \<lparr>timestamp = 0, channel = 2, sample_count = 1, gates_count = 0, samples = []\<rparr>)"
  by (simp add: header_only_def decode_simps)

text \<open>
  Claim C7, amended. Whenever \<open>read_waveform_packet\<close> returns false: if the check of the
  14-byte header region failed, \<open>pos\<close> on exit equals \<open>pos\<close> on entry; if the check of the
  sample region failed, \<open>pos\<close> on exit is \<open>pos\<close> on entry plus 14.
\<close>

theorem rejected_packet_pos:
  "read_waveform_packet buffer pos packet = Inr (False, pos', packet') \<Longrightarrow>
     pos' = (if length buffer < size_t_add pos 14 then pos else pos + 14)"
  by (auto simp: read_waveform_packet_def Let_def split: if_splits sum.splits)

theorem rejected_packet_pos_witness:
  "read_waveform_packet header_only 0 fresh_packet =
     Inr (False, 14,
          \<lparr>timestamp = 0, channel = 2, sample_count = 1, gates_count = 0, samples = []\<rparr>) \<and>
   \<not> length header_only < size_t_add 0 14 \<and>
   read_waveform_packet [] 0 fresh_packet = Inr (False, 0, fresh_packet) \<and>
   length ([] :: string) < size_t_add 0 14"
  using rejected_packet_pos [of header_only 0 fresh_packet 14
      "\<lparr>timestamp = 0, channel = 2, sample_count = 1, gates_count = 0, samples = []\<rparr>"]
    rejected_packet_pos [of "[]" 0 fresh_packet 0 fresh_packet]
  by (simp add: header_only_def decode_simps)

section \<open>The scan as a run of the handler over the packets of the stream\<close>

lemma run_packets_append:
  "run_packets h (ps @ qs) st =
     (if snd (run_packets h ps st) = Next then run_packets h qs (fst (run_packets h ps st))
      else run_packets h ps st)"
  by (induction ps arbitrary: st) (auto split: prod.splits)

lemma waveform_loop_collect_acc:
  "waveform_loop collect buffer pos acc =
     (acc @ fst (waveform_loop collect buffer pos []), snd (waveform_loop collect buffer pos []))"
proof (induction "length buffer - pos" arbitrary: pos acc rule: less_induct)
  case less
  show ?case
  proof (cases "pos < length buffer")
    case False
    then show ?thesis by (simp add: waveform_loop.simps)
  next
    case True
    show ?thesis
    proof (cases "read_waveform_packet buffer pos fresh_packet")
      case (Inl e)
      with True show ?thesis by (simp add: waveform_loop.simps [of _ _ pos])
    next
      case (Inr r)
      obtain ok pos' pkt where r: "r = (ok, pos', pkt)" by (cases r)
      show ?thesis
      proof (cases ok)
        case False
        with True Inr r show ?thesis by (simp add: waveform_loop.simps [of _ _ pos])
      next
        case ok: True
        from Inr r ok have "pos < pos'" by (auto dest: read_waveform_packet_advances)
        with True have m: "length buffer - pos' < length buffer - pos" by simp
        have 1: "waveform_loop collect buffer pos acc = waveform_loop collect buffer pos' (acc @ [pkt])"
          using True Inr r ok by (simp add: waveform_loop.simps [of _ _ pos] collect_def)
        have 2: "waveform_loop collect buffer pos [] = waveform_loop collect buffer pos' [pkt]"
          using True Inr r ok by (simp add: waveform_loop.simps [of _ _ pos] collect_def)
        show ?thesis
          unfolding 1 2
          by (simp add: less [OF m, of "acc @ [pkt]"] less [OF m, of "[pkt]"])
      qed
    qed
  qed
qed

lemma waveform_loop_fusion:
  "(fst (waveform_loop h buffer pos st), fst (snd (waveform_loop h buffer pos st))) =
     and_then (run_packets h (fst (waveform_loop collect buffer pos [])) st)
       (fst (snd (waveform_loop collect buffer pos [])))"
proof (induction "length buffer - pos" arbitrary: pos st rule: less_induct)
  case less
  show ?case
  proof (cases "pos < length buffer")
    case False
    then show ?thesis by (simp add: waveform_loop.simps and_then_def)
  next
    case True
    show ?thesis
    proof (cases "read_waveform_packet buffer pos fresh_packet")
      case (Inl e)
      with True show ?thesis by (simp add: waveform_loop.simps [of _ _ pos] and_then_def)
    next
      case (Inr r)
      obtain ok pos' pkt where r: "r = (ok, pos', pkt)" by (cases r)
      show ?thesis
      proof (cases ok)
        case False
        with True Inr r show ?thesis by (simp add: waveform_loop.simps [of _ _ pos] and_then_def)
      next
        case ok: True
        from Inr r ok have "pos < pos'" by (auto dest: read_waveform_packet_advances)
        with True have m: "length buffer - pos' < length buffer - pos" by simp
        have 2: "waveform_loop collect buffer pos [] = waveform_loop collect buffer pos' [pkt]"
          using True Inr r ok by (simp add: waveform_loop.simps [of _ _ pos] collect_def)
        obtain st' fl where h: "h pkt st = (st', fl)" by (cases "h pkt st")
        show ?thesis
        proof (cases "fl = Next")
          case True
          have 1: "waveform_loop h buffer pos st = waveform_loop h buffer pos' st'"
            using \<open>pos < length buffer\<close> Inr r ok h True by (simp add: waveform_loop.simps [of _ _ pos])
          show ?thesis
            unfolding 1 2 waveform_loop_collect_acc [of buffer pos' "[pkt]"]
            using less [OF m, of st'] h True by simp
        next
          case False
          have 1: "waveform_loop h buffer pos st = (st', fl, pos')"
            using \<open>pos < length buffer\<close> Inr r ok h False by (simp add: waveform_loop.simps [of _ _ pos])
          show ?thesis
            unfolding 1 2 waveform_loop_collect_acc [of buffer pos' "[pkt]"]
            using h False by (simp add: and_then_def)
        qed
      qed
    qed
  qed
qed

lemma collect_flow:
  "fst (snd (waveform_loop collect buffer pos acc)) \<noteq> GotoDone"
proof (induction "length buffer - pos" arbitrary: pos acc rule: less_induct)
  case less
  show ?case
  proof (cases "pos < length buffer")
    case False
    then show ?thesis by (simp add: waveform_loop.simps)
  next
    case True
    show ?thesis
    proof (cases "read_waveform_packet buffer pos fresh_packet")
      case (Inl e)
      with True show ?thesis by (simp add: waveform_loop.simps [of _ _ pos])
    next
      case (Inr r)
      obtain ok pos' pkt where r: "r = (ok, pos', pkt)" by (cases r)
      show ?thesis
      proof (cases ok)
        case False
        with True Inr r show ?thesis by (simp add: waveform_loop.simps [of _ _ pos])
      next
        case ok: True
        from Inr r ok have "pos < pos'" by (auto dest: read_waveform_packet_advances)
        with True have m: "length buffer - pos' < length buffer - pos" by simp
        have 1: "waveform_loop collect buffer pos acc = waveform_loop collect buffer pos' (acc @ [pkt])"
          using True Inr r ok by (simp add: waveform_loop.simps [of _ _ pos] collect_def)
        show ?thesis unfolding 1 by (rule less [OF m])
      qed
    qed
  qed
qed

lemma scan_step:
  "scan h (c # input) topic st =
     (if c \<noteq> CHR '' '' then scan h input (topic @ [c]) st
      else
        (case rfind topic ''_s'' of
           None \<Rightarrow> scan h input [] st
         | Some size_pos \<Rightarrow>
             (case stoi (drop (size_pos + 2) topic) of
                Inl e \<Rightarrow> (st, Throw e)
              | Inr msg_size \<Rightarrow>
                  if msg_size < 0 then (st, Throw LengthError)
                  else if length input < nat msg_size then (st, Next)
                  else if starts_with topic ''data_abcd_waveforms'' then
                    (if fst (snd (waveform_loop h (take (nat msg_size) input) 0 st)) = Next
                     then scan h (drop (nat msg_size) input) []
                            (fst (waveform_loop h (take (nat msg_size) input) 0 st))
                     else (fst (waveform_loop h (take (nat msg_size) input) 0 st),
                           fst (snd (waveform_loop h (take (nat msg_size) input) 0 st))))
                  else scan h (drop (nat msg_size) input) [] st)))"
  by (simp only: scan.simps(2) case_prod_beta)


lemma scan_cases [case_names nonspace no_size bad_size negative truncated waveforms other]:
  obtains "c \<noteq> CHR '' ''"
  | "c = CHR '' ''" "rfind topic ''_s'' = None"
  | p e where "c = CHR '' ''" "rfind topic ''_s'' = Some p" "stoi (drop (p + 2) topic) = Inl e"
  | p n where "c = CHR '' ''" "rfind topic ''_s'' = Some p" "stoi (drop (p + 2) topic) = Inr n"
      "n < 0"
  | p n where "c = CHR '' ''" "rfind topic ''_s'' = Some p" "stoi (drop (p + 2) topic) = Inr n"
      "0 \<le> n" "length (input :: string) < nat n"
  | p n where "c = CHR '' ''" "rfind topic ''_s'' = Some p" "stoi (drop (p + 2) topic) = Inr n"
      "0 \<le> n" "nat n \<le> length input" "starts_with topic ''data_abcd_waveforms''"
  | p n where "c = CHR '' ''" "rfind topic ''_s'' = Some p" "stoi (drop (p + 2) topic) = Inr n"
      "0 \<le> n" "nat n \<le> length input" "\<not> starts_with topic ''data_abcd_waveforms''"
proof (cases "c = CHR '' ''")
  case False
  then show ?thesis by (rule that(1))
next
  case sp: True
  show ?thesis
  proof (cases "rfind topic ''_s''")
    case None
    with sp show ?thesis by (rule that(2))
  next
    case (Some p)
    show ?thesis
    proof (cases "stoi (drop (p + 2) topic)")
      case (Inl e)
      with sp Some show ?thesis by (rule that(3))
    next
      case (Inr n)
      show ?thesis
      proof (cases "n < 0")
        case True
        with sp Some Inr show ?thesis by (rule that(4))
      next
        case nonneg: False
        show ?thesis
        proof (cases "length input < nat n")
          case True
          with sp Some Inr nonneg show ?thesis by (intro that(5)) simp_all
        next
          case False
          with sp Some Inr nonneg show ?thesis
            by (cases "starts_with topic ''data_abcd_waveforms''")
               (simp_all add: that(6) that(7))
        qed
      qed
    qed
  qed
qed

lemma scan_nonspace:
  "c \<noteq> CHR '' '' \<Longrightarrow> scan h (c # input) topic st = scan h input (topic @ [c]) st"
  by (simp add: scan_step)

lemma scan_no_size:
  "rfind topic ''_s'' = None \<Longrightarrow> scan h (CHR '' '' # input) topic st = scan h input [] st"
  by (simp add: scan_step)

lemma scan_bad_size:
  "rfind topic ''_s'' = Some p \<Longrightarrow> stoi (drop (p + 2) topic) = Inl e \<Longrightarrow>
     scan h (CHR '' '' # input) topic st = (st, Throw e)"
  by (simp add: scan_step)

lemma scan_negative:
  "rfind topic ''_s'' = Some p \<Longrightarrow> stoi (drop (p + 2) topic) = Inr n \<Longrightarrow> n < 0 \<Longrightarrow>
     scan h (CHR '' '' # input) topic st = (st, Throw LengthError)"
  by (simp add: scan_step)

lemma scan_truncated:
  "rfind topic ''_s'' = Some p \<Longrightarrow> stoi (drop (p + 2) topic) = Inr n \<Longrightarrow> 0 \<le> n \<Longrightarrow>
     length input < nat n \<Longrightarrow> scan h (CHR '' '' # input) topic st = (st, Next)"
  by (simp add: scan_step)

lemma scan_waveforms:
  "rfind topic ''_s'' = Some p \<Longrightarrow> stoi (drop (p + 2) topic) = Inr n \<Longrightarrow> 0 \<le> n \<Longrightarrow>
     nat n \<le> length input \<Longrightarrow> starts_with topic ''data_abcd_waveforms'' \<Longrightarrow>
     scan h (CHR '' '' # input) topic st =
       (if fst (snd (waveform_loop h (take (nat n) input) 0 st)) = Next
        then scan h (drop (nat n) input) [] (fst (waveform_loop h (take (nat n) input) 0 st))
        else (fst (waveform_loop h (take (nat n) input) 0 st),
              fst (snd (waveform_loop h (take (nat n) input) 0 st))))"
  by (simp add: scan_step)

lemma scan_other:
  "rfind topic ''_s'' = Some p \<Longrightarrow> stoi (drop (p + 2) topic) = Inr n \<Longrightarrow> 0 \<le> n \<Longrightarrow>
     nat n \<le> length input \<Longrightarrow> \<not> starts_with topic ''data_abcd_waveforms'' \<Longrightarrow>
     scan h (CHR '' '' # input) topic st = scan h (drop (nat n) input) [] st"
  by (simp add: scan_step)

lemma scan_collect_acc:
  "scan collect input topic acc =
     (acc @ fst (scan collect input topic []), snd (scan collect input topic []))"
proof (induction "length input" arbitrary: input topic acc rule: less_induct)
  case less
  show ?case
  proof (cases input)
    case Nil
    then show ?thesis by simp
  next
    case (Cons c rest)
    have IH: "scan collect (drop n rest) t a =
        (a @ fst (scan collect (drop n rest) t []), snd (scan collect (drop n rest) t []))"
      for n t a
      by (rule less) (simp add: Cons)
    have IH0: "scan collect rest t a =
        (a @ fst (scan collect rest t []), snd (scan collect rest t []))" for t a
      by (rule less) (simp add: Cons)
    show ?thesis
    proof (cases rule: scan_cases [where c = c and topic = topic and input = rest])
      case nonspace
      then show ?thesis
        unfolding Cons by (simp add: scan_nonspace IH0 [of _ acc])
    next
      case no_size
      then show ?thesis
        unfolding Cons by (simp add: scan_no_size IH0 [of _ acc])
    next
      case (bad_size p e)
      then show ?thesis
        unfolding Cons by (simp add: scan_bad_size)
    next
      case (negative p n)
      then show ?thesis
        unfolding Cons by (simp add: scan_negative)
    next
      case (truncated p n)
      then show ?thesis
        unfolding Cons by (simp add: scan_truncated)
    next
      case (waveforms p n)
      let ?W = "\<lambda>a. waveform_loop collect (take (nat n) rest) 0 a"
      have W: "?W acc = (acc @ fst (?W []), snd (?W []))"
        by (rule waveform_loop_collect_acc)
      have L: "scan collect (c # rest) topic acc =
          (if fst (snd (?W [])) = Next then scan collect (drop (nat n) rest) [] (acc @ fst (?W []))
           else (acc @ fst (?W []), fst (snd (?W []))))"
        using waveforms by (simp add: scan_waveforms W)
      have R: "scan collect (c # rest) topic [] =
          (if fst (snd (?W [])) = Next then scan collect (drop (nat n) rest) [] (fst (?W []))
           else (fst (?W []), fst (snd (?W []))))"
        using waveforms by (simp add: scan_waveforms)
      show ?thesis
        unfolding Cons L R
        by (simp add: IH [of "nat n" "[]" "acc @ fst (?W [])"] IH [of "nat n" "[]" "fst (?W [])"])
    next
      case (other p n)
      then show ?thesis
        unfolding Cons by (simp add: scan_other IH [of _ _ acc])
    qed
  qed
qed

lemma scan_fusion:
  "scan h input topic st =
     and_then (run_packets h (fst (scan collect input topic [])) st)
       (snd (scan collect input topic []))"
proof (induction "length input" arbitrary: input topic st rule: less_induct)
  case less
  show ?case
  proof (cases input)
    case Nil
    then show ?thesis by (simp add: and_then_def)
  next
    case (Cons c rest)
    have IH: "scan h (drop n rest) t s =
        and_then (run_packets h (fst (scan collect (drop n rest) t [])) s)
          (snd (scan collect (drop n rest) t []))" for n t s
      by (rule less) (simp add: Cons)
    have IH0: "scan h rest t s =
        and_then (run_packets h (fst (scan collect rest t [])) s)
          (snd (scan collect rest t []))" for t s
      by (rule less) (simp add: Cons)
    show ?thesis
    proof (cases rule: scan_cases [where c = c and topic = topic and input = rest])
      case nonspace
      then show ?thesis
        unfolding Cons by (simp add: scan_nonspace IH0)
    next
      case no_size
      then show ?thesis
        unfolding Cons by (simp add: scan_no_size IH0)
    next
      case (bad_size p e)
      then show ?thesis
        unfolding Cons by (simp add: scan_bad_size and_then_def)
    next
      case (negative p n)
      then show ?thesis
        unfolding Cons by (simp add: scan_negative and_then_def)
    next
      case (truncated p n)
      then show ?thesis
        unfolding Cons by (simp add: scan_truncated and_then_def)
    next
      case (waveforms p n)
      let ?buf = "take (nat n) rest"
      let ?P = "fst (waveform_loop collect ?buf 0 [])"
      let ?F = "fst (snd (waveform_loop collect ?buf 0 []))"
      let ?rest = "drop (nat n) rest"
      have Fs: "fst (waveform_loop h ?buf 0 st) = fst (and_then (run_packets h ?P st) ?F)"
        using arg_cong [OF waveform_loop_fusion, of fst h ?buf 0 st] by simp
      have Ff: "fst (snd (waveform_loop h ?buf 0 st)) = snd (and_then (run_packets h ?P st) ?F)"
        using arg_cong [OF waveform_loop_fusion, of snd h ?buf 0 st] by simp
      have L: "scan h (c # rest) topic st =
          (if fst (snd (waveform_loop h ?buf 0 st)) = Next
           then scan h ?rest [] (fst (waveform_loop h ?buf 0 st))
           else (fst (waveform_loop h ?buf 0 st), fst (snd (waveform_loop h ?buf 0 st))))"
        using waveforms by (simp add: scan_waveforms)
      have R: "scan collect (c # rest) topic [] =
          (if ?F = Next then (?P @ fst (scan collect ?rest [] []), snd (scan collect ?rest [] []))
           else (?P, ?F))"
        using waveforms scan_collect_acc [of ?rest "[]" ?P] by (simp add: scan_waveforms)
      show ?thesis
        unfolding Cons L R Fs Ff
        by (simp add: and_then_def IH run_packets_append prod_eq_iff)
    next
      case (other p n)
      then show ?thesis
        unfolding Cons by (simp add: scan_other IH)
    qed
  qed
qed

section \<open>Single-channel export and the ends of the scan\<close>

lemma fst_and_then [simp]: "fst (and_then r fl) = fst r"
  by (simp add: and_then_def)

lemma snd_and_then: "snd (and_then r fl) = (if snd r = Next then fl else snd r)"
  by (simp add: and_then_def)

lemma export_single_channel_run:
  assumes "files input_file = Some input" and "creatable (csv_name input_file channel_id)"
  shows "export_single_channel files creatable input_file channel_id max_waveforms =
    (case and_then
            (run_packets (single_packet channel_id max_waveforms) (stream_packets input)
               \<lparr>out = \<lparr>path = csv_name input_file channel_id, is_open = True, rows = []\<rparr>,
                exported = 0\<rparr>)
            (stream_end input) of
       (st, fl) \<Rightarrow> Ran st fl)"
  using assms
  by (simp add: export_single_channel_def open_ofstream_def stream_packets_def stream_end_def
      scan_fusion [of "single_packet channel_id max_waveforms"])

lemma single_packet_other:
  "uint (channel pkt) \<noteq> channel_id \<Longrightarrow> single_packet channel_id max_waveforms pkt st = (st, Next)"
  by (simp add: single_packet_def)

lemma single_packet_match:
  "uint (channel pkt) = channel_id \<Longrightarrow> is_open ou \<Longrightarrow> e < INT_MAX \<Longrightarrow>
   single_packet channel_id max_waveforms pkt \<lparr>out = ou, exported = e\<rparr> =
     (\<lparr>out = ou\<lparr>rows := rows ou @ [csv_row (samples pkt)]\<rparr>, exported = e + 1\<rparr>,
      if 0 < max_waveforms \<and> max_waveforms \<le> e + 1 then GotoDone else Next)"
  by (simp add: single_packet_def write_samples_csv_def Let_def)

lemma run_single_limited:
  assumes "M \<le> INT_MAX"
  shows "is_open ou \<Longrightarrow> 0 \<le> e \<Longrightarrow> e < M \<Longrightarrow>
    run_packets (single_packet channel_id M) pkts \<lparr>out = ou, exported = e\<rparr> =
      (if nat (M - e) \<le> length (matching_packets channel_id pkts)
       then (\<lparr>out = ou\<lparr>rows := rows ou @
                 map (\<lambda>p. csv_row (samples p))
                   (take (nat (M - e)) (matching_packets channel_id pkts))\<rparr>,
              exported = M\<rparr>, GotoDone)
       else (\<lparr>out = ou\<lparr>rows := rows ou @
                 map (\<lambda>p. csv_row (samples p)) (matching_packets channel_id pkts)\<rparr>,
              exported = e + int (length (matching_packets channel_id pkts))\<rparr>, Next))"
proof (induction pkts arbitrary: ou e)
  case Nil
  then show ?case by (simp add: matching_packets_def)
next
  case (Cons p ps)
  show ?case
  proof (cases "uint (channel p) = channel_id")
    case False
    then have m: "matching_packets channel_id (p # ps) = matching_packets channel_id ps"
      by (simp add: matching_packets_def)
    from False Cons show ?thesis
      unfolding m by (simp add: single_packet_other)
  next
    case True
    then have m: "matching_packets channel_id (p # ps) = p # matching_packets channel_id ps"
      by (simp add: matching_packets_def)
    from Cons.prems assms have e: "e < INT_MAX" by simp
    note step = single_packet_match [OF True Cons.prems(1) e, of M]
    show ?thesis
    proof (cases "M \<le> e + 1")
      case last: True
      with Cons.prems have k: "nat (M - e) = Suc 0" by simp
      with last Cons.prems show ?thesis
        unfolding m by (simp add: step)
    next
      case more: False
      then have k: "nat (M - e) = Suc (nat (M - (e + 1)))" by simp
      have o: "is_open (ou\<lparr>rows := rows ou @ [csv_row (samples p)]\<rparr>)"
        using Cons.prems(1) by simp
      from more Cons.prems have b: "0 \<le> e + 1" "e + 1 < M" by simp_all
      show ?thesis
        unfolding m k
        using more Cons.prems
        by (simp add: step Cons.IH [OF o b])
    qed
  qed
qed

text \<open>
  The limit on the packets the scan decodes. With \<open>max_waveforms = M > 0\<close> the run writes
  the rows of the first \<open>M\<close> packets of the target channel among those the scan decodes
  when nothing stops it (\<open>stream_packets\<close>: up to the end of the stream or up to the point
  where the scan itself ends abnormally), and is left through \<open>done\<close> when there are \<open>M\<close>
  of them. This says nothing of packets that lie behind a header the scan does not survive.
\<close>

lemma single_channel_limit:
  assumes "0 < M" and "M \<le> INT_MAX"
    and "files input_file = Some input" and "creatable (csv_name input_file channel_id)"
  shows "export_single_channel files creatable input_file channel_id M =
    Ran \<lparr>out = \<lparr>path = csv_name input_file channel_id, is_open = True,
               rows = map (\<lambda>p. csv_row (samples p))
                        (take (nat M) (matching_packets channel_id (stream_packets input)))\<rparr>,
         exported = min M (int (length (matching_packets channel_id (stream_packets input))))\<rparr>
        (if M \<le> int (length (matching_packets channel_id (stream_packets input)))
         then GotoDone else stream_end input)"
proof -
  let ?o = "\<lparr>path = csv_name input_file channel_id, is_open = True, rows = []\<rparr>"
  have o: "is_open ?o" by simp
  note run = run_single_limited [OF assms(2) o order_refl assms(1), of channel_id "stream_packets input"]
  note ex = export_single_channel_run [where files = files and creatable = creatable
      and max_waveforms = M, OF assms(3,4)]
  show ?thesis
    unfolding ex run
    using assms(1) by (auto simp: and_then_def min_def)
qed

text \<open>
  Claim C10. In single-channel mode with a target outside 0..255 no packet's channel
  equals the target: for every stream the CSV file of the target is created, no row is
  written, the count stays 0, and the run ends as the scan of the stream ends.
\<close>

theorem channel_out_of_range:
  assumes "channel_id < 0 \<or> 255 < channel_id"
    and "files input_file = Some input" and "creatable (csv_name input_file channel_id)"
  shows "export_single_channel files creatable input_file channel_id max_waveforms =
    Ran \<lparr>out = \<lparr>path = csv_name input_file channel_id, is_open = True, rows = []\<rparr>,
         exported = 0\<rparr> (stream_end input)"
proof -
  have u: "uint (channel pkt) \<noteq> channel_id" for pkt :: WaveformPacket
  proof -
    have "0 \<le> uint (channel pkt)" by simp
    moreover have "uint (channel pkt) < 2 ^ 8"
      using uint_bounded [of "channel pkt"] by simp
    ultimately show ?thesis using assms(1) by auto
  qed
  have "run_packets (single_packet channel_id max_waveforms) pkts st = (st, Next)" for pkts st
    by (induction pkts) (simp_all add: single_packet_other [OF u])
  then show ?thesis
    unfolding export_single_channel_run [where files = files and creatable = creatable
      and max_waveforms = max_waveforms, OF assms(2,3)]
    by (simp add: and_then_def)
qed

lemmas string_simps =
  rfind_def starts_with_def stoi_def isspace_def isdigit_def digits_value_def
  INT_MAX_def INT_MIN_def Let_def

lemmas name_simps =
  csv_name_def base_name_def find_str_def starts_with_def to_string_def dec_nat.simps

lemma loop_AB:
  "waveform_loop collect (packet_A @ packet_B) 0 acc = (acc @ [decoded_A, decoded_B], Next, 44)"
  by (simp add: packet_A_def packet_B_def waveform_loop.simps decode_simps collect_def
      decoded_A_def decoded_B_def)

lemma scan_frame_AB:
  "scan collect (frame_AB @ rest) [] acc = scan collect rest [] (acc @ [decoded_A, decoded_B])"
proof -
  have l: "length packet_A = 26" "length packet_B = 18"
    by (simp_all add: packet_A_def packet_B_def)
  show ?thesis
    by (simp add: frame_AB_def scan_step string_simps l loop_AB)
qed

lemma packets_AB_AB:
  "stream_packets (frame_AB @ frame_AB) = [decoded_A, decoded_B, decoded_A, decoded_B]"
  "stream_end (frame_AB @ frame_AB) = Next"
  using scan_frame_AB [of "[]" "[decoded_A, decoded_B]"]
  by (simp_all add: stream_packets_def stream_end_def scan_frame_AB [of frame_AB "[]"])

lemma single_channel_limit_example:
  "export_single_channel (\<lambda>_. Some (frame_AB @ frame_AB)) (\<lambda>_. True) ''run.adr'' 2 3 =
     Ran \<lparr>out = \<lparr>path = ''run_wf_ch2.csv'', is_open = True,
                rows = [''10,20'' @ [CHR 0x0A], ''5,6'' @ [CHR 0x0A], ''10,20'' @ [CHR 0x0A]]\<rparr>,
          exported = 3\<rparr> GotoDone"
  using single_channel_limit [of 3 "\<lambda>_. Some (frame_AB @ frame_AB)" "''run.adr''"
      "frame_AB @ frame_AB" "\<lambda>_. True" 2]
  by (simp add: packets_AB_AB matching_packets_def decoded_A_def decoded_B_def INT_MAX_def
      name_simps csv_row_def)

theorem channel_out_of_range_witness:
  "export_single_channel (\<lambda>_. Some (frame_AB @ frame_AB)) (\<lambda>_. True) ''run.adr'' (- 2) 0 =
     Ran \<lparr>out = \<lparr>path = ''run_wf_ch-2.csv'', is_open = True, rows = []\<rparr>, exported = 0\<rparr> Next"
  using channel_out_of_range [of "- 2" "\<lambda>_. Some (frame_AB @ frame_AB)" "''run.adr''"
      "frame_AB @ frame_AB" "\<lambda>_. True" 0]
  by (simp add: packets_AB_AB name_simps)

lemma scan_topic_chars:
  "CHR '' '' \<notin> set hdr \<Longrightarrow> scan h (hdr @ input) topic st = scan h input (topic @ hdr) st"
proof (induction hdr arbitrary: topic)
  case Nil
  then show ?case by simp
next
  case (Cons a hdr)
  from Cons.prems have a: "a \<noteq> CHR '' ''" and hdr: "CHR '' '' \<notin> set hdr"
    by auto
  show ?case
    using Cons.IH [OF hdr, of "topic @ [a]"] by (simp add: scan_nonspace [OF a])
qed

text \<open>
  Claim C6. From any state of the scan (the topic read so far, the counts and rows of the
  frames processed so far), for either export mode: when the rest of the stream is the
  rest of a header, the space, and fewer bytes than the header declares, the scan stops at
  the end of the stream with the state unchanged, and the run ends normally.
\<close>

theorem truncated_frame_ends_run:
  assumes "CHR '' '' \<notin> set hdr"
    and "rfind (topic @ hdr) ''_s'' = Some p"
    and "stoi (drop (p + 2) (topic @ hdr)) = Inr n"
    and "0 \<le> n"
    and "length partial < nat n"
  shows "scan h (hdr @ CHR '' '' # partial) topic st = (st, Next)"
  unfolding scan_topic_chars [OF assms(1)]
  using assms(2-5) by (rule scan_truncated)

lemma header_44_size:
  "CHR '' '' \<notin> set header_44"
  "rfind ([] @ header_44) ''_s'' = Some 22"
  "stoi (drop (22 + 2) ([] @ header_44)) = Inr 44"
  "(0 :: int) \<le> 44"
  "length packet_A < nat 44"
  by (simp_all add: header_44_def string_simps packet_A_def)

theorem truncated_frame_ends_run_witness:
  "scan (single_packet 2 0) (header_44 @ CHR '' '' # packet_A) []
      \<lparr>out = \<lparr>path = ''run_wf_ch2.csv'', is_open = True, rows = [''5,6'' @ [CHR 0x0A]]\<rparr>,
       exported = 1\<rparr> =
     (\<lparr>out = \<lparr>path = ''run_wf_ch2.csv'', is_open = True, rows = [''5,6'' @ [CHR 0x0A]]\<rparr>,
       exported = 1\<rparr>, Next) \<and>
   scan (all_packet (\<lambda>_. True) ''run.adr'' 0 (- 1)) (header_44 @ CHR '' '' # packet_A) []
      \<lparr>outputs = Map.empty, counts = Map.empty\<rparr> =
     (\<lparr>outputs = Map.empty, counts = Map.empty\<rparr>, Next) \<and>
   export_single_channel (\<lambda>_. Some (frame_AB @ header_44 @ CHR '' '' # packet_A)) (\<lambda>_. True)
       ''run.adr'' 2 0 =
     Ran \<lparr>out = \<lparr>path = ''run_wf_ch2.csv'', is_open = True,
                rows = [''10,20'' @ [CHR 0x0A], ''5,6'' @ [CHR 0x0A]]\<rparr>,
          exported = 2\<rparr> Next"
proof -
  let ?S = "frame_AB @ header_44 @ CHR '' '' # packet_A"
  have "scan collect ?S [] [] = ([decoded_A, decoded_B], Next)"
    using truncated_frame_ends_run [OF header_44_size, of collect "[decoded_A, decoded_B]"]
    by (simp add: scan_frame_AB [of _ "[]"])
  then have p: "stream_packets ?S = [decoded_A, decoded_B]" "stream_end ?S = Next"
    by (simp_all add: stream_packets_def stream_end_def)
  have "export_single_channel (\<lambda>_. Some ?S) (\<lambda>_. True) ''run.adr'' 2 0 =
     Ran \<lparr>out = \<lparr>path = ''run_wf_ch2.csv'', is_open = True,
                rows = [''10,20'' @ [CHR 0x0A], ''5,6'' @ [CHR 0x0A]]\<rparr>,
          exported = 2\<rparr> Next"
    by (simp add: export_single_channel_run [where input = ?S] p single_packet_def
        write_samples_csv_def csv_row_def decoded_A_def decoded_B_def name_simps INT_MAX_def
        and_then_def Let_def)
  then show ?thesis
    using truncated_frame_ends_run [OF header_44_size, of "single_packet 2 0"]
      truncated_frame_ends_run [OF header_44_size,
        of "all_packet (\<lambda>_. True) ''run.adr'' 0 (- 1)"]
    by simp
qed

text \<open>
  Claim C1. The claim: a topic whose text after the last \<open>_s\<close> is not a decimal integer is
  discarded and the scan resumes, and the run is never aborted. The code does not: line
  129 (202) calls \<open>std::stoi\<close> on the suffix, which throws, and nothing catches the
  exception. On the stream \<open>x_s\<close> followed by a space both export functions end with
  \<open>std::invalid_argument\<close>.
\<close>

theorem unparseable_size_aborts:
  "export_single_channel (\<lambda>_. Some ''x_s '') (\<lambda>_. True) ''run.adr'' 0 0 =
     Ran \<lparr>out = \<lparr>path = ''run_wf_ch0.csv'', is_open = True, rows = []\<rparr>, exported = 0\<rparr>
       (Throw InvalidArgument) \<and>
   export_all_channels (\<lambda>_. Some ''x_s '') (\<lambda>_. True) ''run.adr'' 0 (- 1) =
     Ran \<lparr>outputs = Map.empty, counts = Map.empty\<rparr> (Throw InvalidArgument)"
  by (simp add: export_single_channel_def export_all_channels_def open_ofstream_def
      scan_step string_simps name_simps)

section \<open>All-channels export\<close>

lemma run_packets_invariant:
  assumes "\<And>p s. P s \<Longrightarrow> P (fst (h p s))" and "P st"
  shows "P (fst (run_packets h ps st))"
  using assms(2)
proof (induction ps arbitrary: st)
  case Nil
  then show ?case by simp
next
  case (Cons p ps)
  from assms(1) [OF Cons.prems, of p] Cons.IH [of "fst (h p st)"] show ?case
    by (cases "h p st") auto
qed

lemma run_packets_flow:
  assumes "\<And>p s. snd (h p s) \<noteq> GotoDone"
  shows "snd (run_packets h ps st) \<noteq> GotoDone"
proof (induction ps arbitrary: st)
  case Nil
  then show ?case by simp
next
  case (Cons p ps)
  from assms [of p st] Cons.IH [of "fst (h p st)"] show ?case
    by (cases "h p st") auto
qed

lemma scan_collect_flow:
  "snd (scan collect input topic acc) \<noteq> GotoDone"
proof (induction "length input" arbitrary: input topic acc rule: less_induct)
  case less
  show ?case
  proof (cases input)
    case Nil
    then show ?thesis by simp
  next
    case (Cons c rest)
    have IH: "snd (scan collect (drop n rest) t a) \<noteq> GotoDone" for n t a
      by (rule less) (simp add: Cons)
    have IH0: "snd (scan collect rest t a) \<noteq> GotoDone" for t a
      by (rule less) (simp add: Cons)
    show ?thesis
    proof (cases rule: scan_cases [where c = c and topic = topic and input = rest])
      case nonspace
      then show ?thesis unfolding Cons by (simp add: scan_nonspace IH0)
    next
      case no_size
      then show ?thesis unfolding Cons by (simp add: scan_no_size IH0)
    next
      case (bad_size p e)
      then show ?thesis unfolding Cons by (simp add: scan_bad_size)
    next
      case (negative p n)
      then show ?thesis unfolding Cons by (simp add: scan_negative)
    next
      case (truncated p n)
      then show ?thesis unfolding Cons by (simp add: scan_truncated)
    next
      case (waveforms p n)
      then show ?thesis unfolding Cons by (simp add: scan_waveforms IH collect_flow)
    next
      case (other p n)
      then show ?thesis unfolding Cons by (simp add: scan_other IH)
    qed
  qed
qed

lemma stream_end_not_done: "stream_end input \<noteq> GotoDone"
  by (simp add: stream_end_def scan_collect_flow)

lemma export_all_channels_run:
  assumes "files input_file = Some input"
  shows "export_all_channels files creatable input_file max_per_channel exclude_channel =
    (case and_then
            (run_packets (all_packet creatable input_file max_per_channel exclude_channel)
               (stream_packets input) \<lparr>outputs = Map.empty, counts = Map.empty\<rparr>)
            (stream_end input) of
       (st, fl) \<Rightarrow> Ran st fl)"
  using assms
  by (simp add: export_all_channels_def stream_packets_def stream_end_def
      scan_fusion [of "all_packet creatable input_file max_per_channel exclude_channel"])

lemma all_packet_excluded:
  "outputs st exclude_channel = None \<and> counts st exclude_channel = None \<Longrightarrow>
   outputs (fst (all_packet creatable input_file max_per_channel exclude_channel pkt st))
     exclude_channel = None \<and>
   counts (fst (all_packet creatable input_file max_per_channel exclude_channel pkt st))
     exclude_channel = None"
  by (simp add: all_packet_def Let_def)

lemma all_packet_flow:
  "snd (all_packet creatable input_file max_per_channel exclude_channel pkt st) \<noteq> GotoDone"
  by (simp add: all_packet_def Let_def)

lemma all_packet_capped:
  assumes "0 < max_per_channel"
    and "\<forall>ch c. counts st ch = Some c \<longrightarrow> 0 \<le> c \<and> c \<le> max_per_channel"
  shows "\<forall>ch c. counts (fst (all_packet creatable input_file max_per_channel exclude_channel pkt st))
            ch = Some c \<longrightarrow> 0 \<le> c \<and> c \<le> max_per_channel"
proof (intro allI impI)
  fix ch c
  let ?k = "uint (channel pkt)"
  assume c: "counts (fst (all_packet creatable input_file max_per_channel exclude_channel pkt st))
      ch = Some c"
  have old: "counts st k = Some n \<Longrightarrow> 0 \<le> n \<and> n \<le> max_per_channel" for k n
    using assms(2) by blast
  show "0 \<le> c \<and> c \<le> max_per_channel"
  proof (cases "ch = ?k \<and> ?k \<noteq> exclude_channel")
    case False
    with c have "counts st ch = Some c"
      by (auto simp: all_packet_def Let_def split: option.splits if_splits)
    then show ?thesis by (rule old)
  next
    case True
    show ?thesis
    proof (cases "outputs st ?k")
      case None
      with True c assms(1) show ?thesis
        by (auto simp: all_packet_def Let_def INT_MAX_def split: if_splits)
    next
      case (Some f)
      show ?thesis
      proof (cases "counts st ?k")
        case None
        with Some True c assms(1) show ?thesis
          by (auto simp: all_packet_def Let_def INT_MAX_def split: if_splits)
      next
        case (Some n)
        with \<open>outputs st ?k = Some f\<close> True c assms(1) old [OF Some] show ?thesis
          by (auto simp: all_packet_def Let_def split: if_splits)
      qed
    qed
  qed
qed

lemma all_packet_written:
  assumes "uint (channel pkt) \<noteq> exclude_channel"
    and "max_per_channel \<le> 0 \<or> count_of st (uint (channel pkt)) < max_per_channel"
    and "count_of st (uint (channel pkt)) < INT_MAX"
  shows "all_packet creatable input_file max_per_channel exclude_channel pkt st =
    (st\<lparr>outputs := (outputs st)(uint (channel pkt) \<mapsto>
            write_samples_csv (sink_of creatable input_file st (uint (channel pkt))) (samples pkt)),
        counts := (counts st)(uint (channel pkt) \<mapsto> count_of st (uint (channel pkt)) + 1)\<rparr>,
     Next)"
  using assms
  by (auto simp: all_packet_def Let_def sink_of_def count_of_def split: option.splits)

lemma all_packet_dropped:
  assumes "uint (channel pkt) \<noteq> exclude_channel"
    and "0 < max_per_channel"
    and "outputs st (uint (channel pkt)) = Some f"
    and "counts st (uint (channel pkt)) = Some c"
    and "max_per_channel \<le> c"
  shows "all_packet creatable input_file max_per_channel exclude_channel pkt st = (st, Next)"
  using assms
  by (simp add: all_packet_def Let_def fun_upd_idem)

lemma all_packet_no_throw:
  assumes "0 < max_per_channel" and "max_per_channel \<le> INT_MAX"
  shows "snd (all_packet creatable input_file max_per_channel exclude_channel pkt st) = Next"
  using assms by (simp add: all_packet_def Let_def)

lemma all_packet_flows:
  "snd (all_packet creatable input_file max_per_channel exclude_channel pkt st) = Next \<or>
   snd (all_packet creatable input_file max_per_channel exclude_channel pkt st) = Throw SignedOverflow"
  by (simp add: all_packet_def Let_def)

lemma run_packets_flows:
  assumes "\<And>p s. snd (h p s) = Next \<or> snd (h p s) = fl"
  shows "snd (run_packets h ps st) = Next \<or> snd (run_packets h ps st) = fl"
proof (induction ps arbitrary: st)
  case Nil
  then show ?case by simp
next
  case (Cons p ps)
  from assms [of p st] Cons.IH [of "fst (h p st)"] show ?case
    by (cases "h p st") auto
qed

lemma all_packet_others:
  "k \<noteq> uint (channel pkt) \<Longrightarrow>
   outputs (fst (all_packet creatable input_file max_per_channel exclude_channel pkt st)) k =
     outputs st k \<and>
   counts (fst (all_packet creatable input_file max_per_channel exclude_channel pkt st)) k =
     counts st k"
  by (simp add: all_packet_def Let_def)

lemma all_packet_sink:
  "uint (channel pkt) \<noteq> exclude_channel \<Longrightarrow>
   outputs (fst (all_packet creatable input_file max_per_channel exclude_channel pkt st))
     (uint (channel pkt)) =
     Some (if max_per_channel \<le> 0 \<or> count_of st (uint (channel pkt)) < max_per_channel
           then write_samples_csv (sink_of creatable input_file st (uint (channel pkt)))
                  (samples pkt)
           else sink_of creatable input_file st (uint (channel pkt)))"
  by (auto simp: all_packet_def Let_def sink_of_def count_of_def split: option.splits)

lemma export_all_channels_Ran:
  assumes "files input_file = Some input"
    and "export_all_channels files creatable input_file max_per_channel exclude_channel = Ran st fl"
  shows "st = fst (run_packets (all_packet creatable input_file max_per_channel exclude_channel)
                  (stream_packets input) \<lparr>outputs = Map.empty, counts = Map.empty\<rparr>)"
    and "fl = (if snd (run_packets (all_packet creatable input_file max_per_channel exclude_channel)
                  (stream_packets input) \<lparr>outputs = Map.empty, counts = Map.empty\<rparr>) = Next
               then stream_end input
               else snd (run_packets (all_packet creatable input_file max_per_channel exclude_channel)
                  (stream_packets input) \<lparr>outputs = Map.empty, counts = Map.empty\<rparr>))"
proof -
  let ?r = "run_packets (all_packet creatable input_file max_per_channel exclude_channel)
                  (stream_packets input) \<lparr>outputs = Map.empty, counts = Map.empty\<rparr>"
  from assms(2) have "and_then ?r (stream_end input) = (st, fl)"
    unfolding export_all_channels_run [where files = files and creatable = creatable, OF assms(1)]
    by (simp split: prod.splits)
  then have "fst (and_then ?r (stream_end input)) = st" "snd (and_then ?r (stream_end input)) = fl"
    by simp_all
  then show "st = fst ?r" and "fl = (if snd ?r = Next then stream_end input else snd ?r)"
    by (simp_all add: snd_and_then)
qed

text \<open>
  Claim C5. In all-channels mode, for every stream: the run ends with no output stream and
  no counter under the key \<open>exclude_channel\<close>, its state being what the handler makes of
  the packets of the stream, one after the other; and the handler leaves, for a packet
  whose channel is not \<open>exclude_channel\<close>, under the key of that channel the stream of
  that channel (the one opened now on the CSV name of the channel when the key was
  absent), with the row of the packet written to it unless the cap is reached, and leaves
  every other key as it was.
\<close>

theorem excluded_channel_and_routing:
  "(files input_file = Some input \<longrightarrow>
    export_all_channels files creatable input_file max_per_channel exclude_channel = Ran st fl \<longrightarrow>
      outputs st exclude_channel = None \<and> counts st exclude_channel = None \<and>
      st = fst (run_packets (all_packet creatable input_file max_per_channel exclude_channel)
                  (stream_packets input) \<lparr>outputs = Map.empty, counts = Map.empty\<rparr>)) \<and>
   (uint (channel pkt) \<noteq> exclude_channel \<longrightarrow>
      outputs (fst (all_packet creatable input_file max_per_channel exclude_channel pkt s))
        (uint (channel pkt)) =
        Some (if max_per_channel \<le> 0 \<or> count_of s (uint (channel pkt)) < max_per_channel
              then write_samples_csv (sink_of creatable input_file s (uint (channel pkt)))
                     (samples pkt)
              else sink_of creatable input_file s (uint (channel pkt))) \<and>
      (\<forall>k. k \<noteq> uint (channel pkt) \<longrightarrow>
         outputs (fst (all_packet creatable input_file max_per_channel exclude_channel pkt s)) k =
           outputs s k \<and>
         counts (fst (all_packet creatable input_file max_per_channel exclude_channel pkt s)) k =
           counts s k))"
proof (intro conjI impI)
  let ?h = "all_packet creatable input_file max_per_channel exclude_channel"
  let ?init = "\<lparr>outputs = Map.empty, counts = Map.empty\<rparr>"
  assume f: "files input_file = Some input"
    and r: "export_all_channels files creatable input_file max_per_channel exclude_channel = Ran st fl"
  from f r show st: "st = fst (run_packets ?h (stream_packets input) ?init)"
    by (rule export_all_channels_Ran(1))
  have "outputs (fst (run_packets ?h (stream_packets input) ?init)) exclude_channel = None \<and>
        counts (fst (run_packets ?h (stream_packets input) ?init)) exclude_channel = None"
    by (rule run_packets_invariant [where h = ?h and
          P = "\<lambda>s. outputs s exclude_channel = None \<and> counts s exclude_channel = None"])
       (simp_all add: all_packet_excluded)
  then show "outputs st exclude_channel = None" and "counts st exclude_channel = None"
    unfolding st by simp_all
next
  assume "uint (channel pkt) \<noteq> exclude_channel"
  then show "outputs (fst (all_packet creatable input_file max_per_channel exclude_channel pkt s))
        (uint (channel pkt)) =
        Some (if max_per_channel \<le> 0 \<or> count_of s (uint (channel pkt)) < max_per_channel
              then write_samples_csv (sink_of creatable input_file s (uint (channel pkt)))
                     (samples pkt)
              else sink_of creatable input_file s (uint (channel pkt)))"
    by (rule all_packet_sink)
next
  show "\<forall>k. k \<noteq> uint (channel pkt) \<longrightarrow>
         outputs (fst (all_packet creatable input_file max_per_channel exclude_channel pkt s)) k =
           outputs s k \<and>
         counts (fst (all_packet creatable input_file max_per_channel exclude_channel pkt s)) k =
           counts s k"
    by (simp add: all_packet_others)
qed

lemma all_channels_counts_capped:
  assumes "0 < max_per_channel" and "files input_file = Some input"
    and "export_all_channels files creatable input_file max_per_channel exclude_channel = Ran st fl"
    and "counts st ch = Some c"
  shows "0 \<le> c \<and> c \<le> max_per_channel"
proof -
  let ?h = "all_packet creatable input_file max_per_channel exclude_channel"
  let ?r = "run_packets ?h (stream_packets input) \<lparr>outputs = Map.empty, counts = Map.empty\<rparr>"
  have "\<forall>ch c. counts (fst ?r) ch = Some c \<longrightarrow> 0 \<le> c \<and> c \<le> max_per_channel"
  proof (rule run_packets_invariant [where h = ?h and
          P = "\<lambda>s. \<forall>ch c. counts s ch = Some c \<longrightarrow> 0 \<le> c \<and> c \<le> max_per_channel"])
    fix p and s :: all_state
    assume "\<forall>ch c. counts s ch = Some c \<longrightarrow> 0 \<le> c \<and> c \<le> max_per_channel"
    with assms(1)
    show "\<forall>ch c. counts (fst (?h p s)) ch = Some c \<longrightarrow> 0 \<le> c \<and> c \<le> max_per_channel"
      by (rule all_packet_capped)
  next
    show "\<forall>ch c. counts \<lparr>outputs = Map.empty, counts = Map.empty\<rparr> ch = Some c \<longrightarrow>
        0 \<le> c \<and> c \<le> max_per_channel"
      by simp
  qed
  then have "counts (fst ?r) ch = Some c \<longrightarrow> 0 \<le> c \<and> c \<le> max_per_channel"
    by blast
  moreover have "st = fst ?r"
    using assms(2,3) by (rule export_all_channels_Ran(1))
  ultimately show ?thesis
    using assms(4) by simp
qed

lemma all_channels_flow:
  assumes "files input_file = Some input"
    and "export_all_channels files creatable input_file max_per_channel exclude_channel = Ran st fl"
  shows "fl \<noteq> GotoDone \<and> (fl = stream_end input \<or> fl = Throw SignedOverflow) \<and>
    (0 < max_per_channel \<longrightarrow> max_per_channel \<le> INT_MAX \<longrightarrow> fl = stream_end input)"
proof -
  let ?h = "all_packet creatable input_file max_per_channel exclude_channel"
  let ?r = "run_packets ?h (stream_packets input) \<lparr>outputs = Map.empty, counts = Map.empty\<rparr>"
  have fl: "fl = (if snd ?r = Next then stream_end input else snd ?r)"
    using assms by (rule export_all_channels_Ran(2))
  have fls: "snd ?r = Next \<or> snd ?r = Throw SignedOverflow"
    by (rule run_packets_flows [where h = ?h and fl = "Throw SignedOverflow"])
       (rule all_packet_flows)
  have a: "fl = stream_end input \<or> fl = Throw SignedOverflow"
    using fls unfolding fl by (cases "snd ?r = Next") simp_all
  have b: "fl \<noteq> GotoDone"
    using a stream_end_not_done [of input] by (cases "fl = stream_end input") simp_all
  have c: "fl = stream_end input" if L: "0 < max_per_channel" "max_per_channel \<le> INT_MAX"
  proof -
    have "snd ?r = Next \<or> snd ?r = Next"
      by (rule run_packets_flows [where h = ?h and fl = Next])
         (simp add: all_packet_no_throw [OF L])
    then show ?thesis unfolding fl by simp
  qed
  from a b c show ?thesis by blast
qed

text \<open>
  The cap on the packets the scan decodes. With \<open>max_per_channel = L > 0\<close> every count at
  the end of a run is between 0 and \<open>L\<close>, and a packet that finds the count of its channel
  at \<open>L\<close> (or above) leaves the state unchanged and the run goes on. With \<open>L \<le> 0\<close> a
  packet not excluded is written and counted as long as the count, an \<open>int\<close>, is below
  \<open>INT_MAX\<close>. The handler never leaves the run through \<open>done\<close>: a run ends as the scan of
  the stream ends (at the end of the stream or abnormally), or on the overflow of a counter.
\<close>

lemma per_channel_cap:
  "(0 < max_per_channel \<longrightarrow> files input_file = Some input \<longrightarrow>
    export_all_channels files creatable input_file max_per_channel exclude_channel = Ran st fl \<longrightarrow>
    counts st ch = Some c \<longrightarrow> 0 \<le> c \<and> c \<le> max_per_channel) \<and>
   (0 < max_per_channel \<longrightarrow> uint (channel pkt) \<noteq> exclude_channel \<longrightarrow>
    outputs s (uint (channel pkt)) = Some f \<longrightarrow> counts s (uint (channel pkt)) = Some n \<longrightarrow>
    max_per_channel \<le> n \<longrightarrow>
    all_packet creatable input_file max_per_channel exclude_channel pkt s = (s, Next)) \<and>
   (max_per_channel \<le> 0 \<longrightarrow> uint (channel pkt) \<noteq> exclude_channel \<longrightarrow>
    count_of s (uint (channel pkt)) < INT_MAX \<longrightarrow>
    all_packet creatable input_file max_per_channel exclude_channel pkt s =
      (s\<lparr>outputs := (outputs s)(uint (channel pkt) \<mapsto>
            write_samples_csv (sink_of creatable input_file s (uint (channel pkt))) (samples pkt)),
         counts := (counts s)(uint (channel pkt) \<mapsto> count_of s (uint (channel pkt)) + 1)\<rparr>,
       Next)) \<and>
   (files input_file = Some input \<longrightarrow>
    export_all_channels files creatable input_file max_per_channel exclude_channel = Ran st fl \<longrightarrow>
    fl \<noteq> GotoDone \<and> (fl = stream_end input \<or> fl = Throw SignedOverflow) \<and>
    (0 < max_per_channel \<longrightarrow> max_per_channel \<le> INT_MAX \<longrightarrow> fl = stream_end input))"
  using all_channels_counts_capped [of max_per_channel files input_file input creatable
      exclude_channel st fl ch c]
    all_packet_dropped [of pkt exclude_channel max_per_channel s f n creatable input_file]
    all_packet_written [of pkt exclude_channel max_per_channel s creatable input_file]
    all_channels_flow [of files input_file input creatable max_per_channel exclude_channel st fl]
  by blast

lemma loop_ABC:
  "waveform_loop collect (packet_A @ packet_B @ packet_C) 0 [] =
     ([decoded_A, decoded_B, decoded_C], Next, 60)"
  by (simp add: packet_A_def packet_B_def packet_C_def waveform_loop.simps decode_simps
      collect_def decoded_A_def decoded_B_def decoded_C_def)

lemma packets_ABC:
  "stream_packets frame_ABC = [decoded_A, decoded_B, decoded_C]"
  "stream_end frame_ABC = Next"
proof -
  have l: "length packet_A = 26" "length packet_B = 18" "length packet_C = 16"
    by (simp_all add: packet_A_def packet_B_def packet_C_def)
  have "scan collect frame_ABC [] [] = ([decoded_A, decoded_B, decoded_C], Next)"
    by (simp add: frame_ABC_def scan_step string_simps l loop_ABC)
  then show "stream_packets frame_ABC = [decoded_A, decoded_B, decoded_C]"
    and "stream_end frame_ABC = Next"
    by (simp_all add: stream_packets_def stream_end_def)
qed

lemmas all_eval =
  export_all_channels_run packets_ABC all_packet_def decoded_A_def decoded_B_def decoded_C_def
  and_then_def open_ofstream_def write_samples_csv_def csv_row_def name_simps Let_def INT_MAX_def

lemma export_ABC_excluding_2:
  "export_all_channels (\<lambda>_. Some frame_ABC) (\<lambda>_. True) ''run.adr'' 0 2 =
     Ran \<lparr>outputs = [5 \<mapsto> \<lparr>path = ''run_wf_ch5.csv'', is_open = True, rows = [''7'' @ [CHR 0x0A]]\<rparr>],
          counts = [5 \<mapsto> 1]\<rparr> Next"
  by (simp add: all_eval)

lemma export_ABC_cap_1:
  "export_all_channels (\<lambda>_. Some frame_ABC) (\<lambda>_. True) ''run.adr'' 1 (- 1) =
     Ran \<lparr>outputs = [2 \<mapsto> \<lparr>path = ''run_wf_ch2.csv'', is_open = True, rows = [''10,20'' @ [CHR 0x0A]]\<rparr>,
                     5 \<mapsto> \<lparr>path = ''run_wf_ch5.csv'', is_open = True, rows = [''7'' @ [CHR 0x0A]]\<rparr>],
          counts = [2 \<mapsto> 1, 5 \<mapsto> 1]\<rparr> Next"
  by (simp add: all_eval)

theorem excluded_channel_and_routing_witness:
  "export_all_channels (\<lambda>_. Some frame_ABC) (\<lambda>_. True) ''run.adr'' 0 2 =
     Ran \<lparr>outputs = [5 \<mapsto> \<lparr>path = ''run_wf_ch5.csv'', is_open = True, rows = [''7'' @ [CHR 0x0A]]\<rparr>],
          counts = [5 \<mapsto> 1]\<rparr> Next \<and>
   uint (channel decoded_C) \<noteq> 2 \<and>
   outputs (fst (all_packet (\<lambda>_. True) ''run.adr'' 0 2 decoded_C
                  \<lparr>outputs = Map.empty, counts = Map.empty\<rparr>)) 5 =
     Some \<lparr>path = ''run_wf_ch5.csv'', is_open = True, rows = [''7'' @ [CHR 0x0A]]\<rparr> \<and>
   outputs (fst (all_packet (\<lambda>_. True) ''run.adr'' 0 2 decoded_C
                  \<lparr>outputs = Map.empty, counts = Map.empty\<rparr>)) 2 = None"
  using excluded_channel_and_routing [where files = "\<lambda>_. Some frame_ABC" and input = frame_ABC
      and input_file = "''run.adr''" and creatable = "\<lambda>_. True" and max_per_channel = 0
      and exclude_channel = 2 and fl = Next and pkt = decoded_C
      and s = "\<lparr>outputs = Map.empty, counts = Map.empty\<rparr>"
      and st = "\<lparr>outputs = [5 \<mapsto> \<lparr>path = ''run_wf_ch5.csv'', is_open = True,
                                    rows = [''7'' @ [CHR 0x0A]]\<rparr>],
                 counts = [5 \<mapsto> 1]\<rparr>"]
    export_ABC_excluding_2
  by (simp add: decoded_C_def sink_of_def count_of_def open_ofstream_def write_samples_csv_def
      csv_row_def name_simps)

lemma per_channel_cap_example:
  "export_all_channels (\<lambda>_. Some frame_ABC) (\<lambda>_. True) ''run.adr'' 1 (- 1) =
     Ran \<lparr>outputs = [2 \<mapsto> \<lparr>path = ''run_wf_ch2.csv'', is_open = True, rows = [''10,20'' @ [CHR 0x0A]]\<rparr>,
                     5 \<mapsto> \<lparr>path = ''run_wf_ch5.csv'', is_open = True, rows = [''7'' @ [CHR 0x0A]]\<rparr>],
          counts = [2 \<mapsto> 1, 5 \<mapsto> 1]\<rparr> Next \<and>
   all_packet (\<lambda>_. True) ''run.adr'' 1 (- 1) decoded_B
     \<lparr>outputs = [2 \<mapsto> \<lparr>path = ''run_wf_ch2.csv'', is_open = True, rows = [''10,20'' @ [CHR 0x0A]]\<rparr>],
      counts = [2 \<mapsto> 1]\<rparr> =
     (\<lparr>outputs = [2 \<mapsto> \<lparr>path = ''run_wf_ch2.csv'', is_open = True, rows = [''10,20'' @ [CHR 0x0A]]\<rparr>],
       counts = [2 \<mapsto> 1]\<rparr>, Next) \<and>
   stream_end frame_ABC = Next \<and>
   all_packet (\<lambda>_. True) ''run.adr'' (- 1) (- 1) decoded_B
     \<lparr>outputs = [2 \<mapsto> \<lparr>path = ''run_wf_ch2.csv'', is_open = True, rows = [''10,20'' @ [CHR 0x0A]]\<rparr>],
      counts = [2 \<mapsto> 1]\<rparr> =
     (\<lparr>outputs = [2 \<mapsto> \<lparr>path = ''run_wf_ch2.csv'', is_open = True,
                          rows = [''10,20'' @ [CHR 0x0A], ''5,6'' @ [CHR 0x0A]]\<rparr>],
       counts = [2 \<mapsto> 2]\<rparr>, Next)"
  using per_channel_cap [where input_file = "''run.adr''" and creatable = "\<lambda>_. True"
      and max_per_channel = "- 1" and exclude_channel = "- 1" and pkt = decoded_B
      and s = "\<lparr>outputs = [2 \<mapsto> \<lparr>path = ''run_wf_ch2.csv'', is_open = True,
                                   rows = [''10,20'' @ [CHR 0x0A]]\<rparr>],
                counts = [2 \<mapsto> 1]\<rparr>"]
    per_channel_cap [where files = "\<lambda>_. Some frame_ABC" and input = frame_ABC
      and input_file = "''run.adr''" and creatable = "\<lambda>_. True" and max_per_channel = 1
      and exclude_channel = "- 1" and fl = Next and pkt = decoded_B and ch = 2 and c = 1
      and f = "\<lparr>path = ''run_wf_ch2.csv'', is_open = True, rows = [''10,20'' @ [CHR 0x0A]]\<rparr>"
      and n = 1
      and s = "\<lparr>outputs = [2 \<mapsto> \<lparr>path = ''run_wf_ch2.csv'', is_open = True,
                                   rows = [''10,20'' @ [CHR 0x0A]]\<rparr>],
                counts = [2 \<mapsto> 1]\<rparr>"
      and st = "\<lparr>outputs = [2 \<mapsto> \<lparr>path = ''run_wf_ch2.csv'', is_open = True,
                                    rows = [''10,20'' @ [CHR 0x0A]]\<rparr>,
                                5 \<mapsto> \<lparr>path = ''run_wf_ch5.csv'', is_open = True,
                                    rows = [''7'' @ [CHR 0x0A]]\<rparr>],
                 counts = [2 \<mapsto> 1, 5 \<mapsto> 1]\<rparr>"]
    export_ABC_cap_1
  by (simp add: decoded_B_def packets_ABC sink_of_def count_of_def write_samples_csv_def
      csv_row_def name_simps INT_MAX_def)

section \<open>The packet loop on a body of complete packets\<close>










lemma complete_A_B:
  "complete_packet packet_A" "complete_packet packet_B"
  "wire_packet packet_A = decoded_A" "wire_packet packet_B = decoded_B"
  by (simp_all add: complete_packet_def sample_count_of_def wire_packet_def raw_sample_def
      bytes_at_def packet_A_def packet_B_def decoded_A_def decoded_B_def upt_rec)


section \<open>Packets behind a header that does not parse\<close>

lemma complete_C:
  "complete_packet packet_C" "wire_packet packet_C = decoded_C"
  by (simp_all add: complete_packet_def sample_count_of_def wire_packet_def raw_sample_def
      bytes_at_def packet_C_def decoded_C_def upt_rec)

lemma export_AB_limit_1:
  "export_single_channel (\<lambda>_. Some frame_AB) (\<lambda>_. True) ''run.adr'' 2 1 =
     Ran \<lparr>out = \<lparr>path = ''run_wf_ch2.csv'', is_open = True, rows = [''10,20'' @ [CHR 0x0A]]\<rparr>,
          exported = 1\<rparr> GotoDone"
proof -
  have "scan collect frame_AB [] [] = ([decoded_A, decoded_B], Next)"
    using scan_frame_AB [of "[]" "[]"] by simp
  then have p: "stream_packets frame_AB = [decoded_A, decoded_B]" "stream_end frame_AB = Next"
    by (simp_all add: stream_packets_def stream_end_def)
  show ?thesis
    by (simp add: export_single_channel_run [where input = frame_AB] p single_packet_def
        write_samples_csv_def csv_row_def decoded_A_def decoded_B_def name_simps INT_MAX_def
        and_then_def Let_def)
qed

lemma export_ABC_no_cap:
  "export_all_channels (\<lambda>_. Some frame_ABC) (\<lambda>_. True) ''run.adr'' (- 1) (- 1) =
     Ran \<lparr>outputs = [2 \<mapsto> \<lparr>path = ''run_wf_ch2.csv'', is_open = True,
                          rows = [''10,20'' @ [CHR 0x0A], ''5,6'' @ [CHR 0x0A]]\<rparr>,
                     5 \<mapsto> \<lparr>path = ''run_wf_ch5.csv'', is_open = True, rows = [''7'' @ [CHR 0x0A]]\<rparr>],
          counts = [2 \<mapsto> 2, 5 \<mapsto> 1]\<rparr> Next"
  by (simp add: all_eval)

text \<open>
  Claim C4. The claim: with \<open>max_count = M > 0\<close> the run exports exactly \<open>min M k\<close> rows,
  \<open>k\<close> being the number of packets in the stream whose channel is the target. The code does
  not, by the defect of claim C1: on the stream made of the token \<open>x_s\<close>, a space, and a
  frame whose body is the two complete packets A and B of channel 2, with target 2 and
  \<open>M = 1\<close>, line 129 throws on the first token and the run ends with no row, where the
  claim asks for one. On the same frame alone the run writes the row of packet A and is left
  through \<open>done\<close>.
\<close>

theorem single_channel_aborts_before_packets:
  "export_single_channel (\<lambda>_. Some (''x_s '' @ frame_AB)) (\<lambda>_. True) ''run.adr'' 2 1 =
     Ran \<lparr>out = \<lparr>path = ''run_wf_ch2.csv'', is_open = True, rows = []\<rparr>, exported = 0\<rparr>
       (Throw InvalidArgument) \<and>
   frame_AB = ''data_abcd_waveforms_v0_s44 '' @ packet_A @ packet_B \<and>
   length (packet_A @ packet_B) = 44 \<and>
   complete_packet packet_A \<and> uint (channel (wire_packet packet_A)) = 2 \<and>
   complete_packet packet_B \<and> uint (channel (wire_packet packet_B)) = 2 \<and>
   export_single_channel (\<lambda>_. Some frame_AB) (\<lambda>_. True) ''run.adr'' 2 1 =
     Ran \<lparr>out = \<lparr>path = ''run_wf_ch2.csv'', is_open = True, rows = [''10,20'' @ [CHR 0x0A]]\<rparr>,
          exported = 1\<rparr> GotoDone"
proof -
  have a: "export_single_channel (\<lambda>_. Some (''x_s '' @ frame_AB)) (\<lambda>_. True) ''run.adr'' 2 1 =
     Ran \<lparr>out = \<lparr>path = ''run_wf_ch2.csv'', is_open = True, rows = []\<rparr>, exported = 0\<rparr>
       (Throw InvalidArgument)"
    by (simp add: export_single_channel_def open_ofstream_def scan_step string_simps name_simps)
  have b: "frame_AB = ''data_abcd_waveforms_v0_s44 '' @ packet_A @ packet_B"
    by (simp add: frame_AB_def)
  have c: "length (packet_A @ packet_B) = 44"
    by (simp add: packet_A_def packet_B_def)
  have d: "uint (channel (wire_packet packet_A)) = 2" "uint (channel (wire_packet packet_B)) = 2"
    by (simp_all add: complete_A_B decoded_A_def decoded_B_def)
  show ?thesis
    by (intro conjI) (rule a b c d complete_A_B export_AB_limit_1)+
qed

text \<open>
  Claim C8. The claim: in all-channels mode with no cap every routed packet is written and
  the run stops only at the end of the stream. The code does not, by the defect of claim
  C1: on the stream of 91 bytes made of the token \<open>x_s\<close>, a space, and a frame whose body is
  the three complete packets A, B and C, with no cap and no excluded channel, line 202
  throws on the first token: the run ends after 4 bytes and no packet is written. On the
  same frame alone the run writes the three rows and ends at the end of the stream.
\<close>

theorem all_channels_aborts_before_end_of_stream:
  "export_all_channels (\<lambda>_. Some (''x_s '' @ frame_ABC)) (\<lambda>_. True) ''run.adr'' (- 1) (- 1) =
     Ran \<lparr>outputs = Map.empty, counts = Map.empty\<rparr> (Throw InvalidArgument) \<and>
   length (''x_s '' @ frame_ABC) = 91 \<and>
   frame_ABC = ''data_abcd_waveforms_v0_s60 '' @ packet_A @ packet_B @ packet_C \<and>
   length (packet_A @ packet_B @ packet_C) = 60 \<and>
   complete_packet packet_A \<and> complete_packet packet_B \<and> complete_packet packet_C \<and>
   export_all_channels (\<lambda>_. Some frame_ABC) (\<lambda>_. True) ''run.adr'' (- 1) (- 1) =
     Ran \<lparr>outputs = [2 \<mapsto> \<lparr>path = ''run_wf_ch2.csv'', is_open = True,
                          rows = [''10,20'' @ [CHR 0x0A], ''5,6'' @ [CHR 0x0A]]\<rparr>,
                     5 \<mapsto> \<lparr>path = ''run_wf_ch5.csv'', is_open = True, rows = [''7'' @ [CHR 0x0A]]\<rparr>],
          counts = [2 \<mapsto> 2, 5 \<mapsto> 1]\<rparr> Next"
proof -
  have a: "export_all_channels (\<lambda>_. Some (''x_s '' @ frame_ABC)) (\<lambda>_. True) ''run.adr'' (- 1) (- 1) =
     Ran \<lparr>outputs = Map.empty, counts = Map.empty\<rparr> (Throw InvalidArgument)"
    by (simp add: export_all_channels_def scan_step string_simps)
  have b: "length (''x_s '' @ frame_ABC) = 91"
    by (simp add: frame_ABC_def packet_A_def packet_B_def packet_C_def)
  have c: "frame_ABC = ''data_abcd_waveforms_v0_s60 '' @ packet_A @ packet_B @ packet_C"
    by (simp add: frame_ABC_def)
  have d: "length (packet_A @ packet_B @ packet_C) = 60"
    by (simp add: packet_A_def packet_B_def packet_C_def)
  show ?thesis
    by (intro conjI) (rule a b c d complete_A_B complete_C export_ABC_no_cap)+
qed

end
